theory Spec2Isabelle
  imports Main "HOL-Library.Word" "HOL-Library.Signed_Division"
begin

unbundle bit_operations_syntax

section \<open>The PXA camera host driver: DMA chains and capture state machine\<close>

text \<open>
  A shallow embedding of \<^verbatim>\<open>drivers/media/video/pxa_camera.c\<close>: the descriptor chain
  builder (\<^verbatim>\<open>calculate_dma_sglen\<close>, \<^verbatim>\<open>pxa_init_dma_channel\<close>), the chain linker
  (\<^verbatim>\<open>pxa_dma_add_tail_buf\<close>) and the interrupt-driven capture state machine
  (\<^verbatim>\<open>pxa_camera_irq\<close>, \<^verbatim>\<open>pxa_camera_dma_irq\<close> and their helpers).

  Conventions of the model.
  \<^item> C \<^verbatim>\<open>int\<close> variables (sizes, offsets, counters) are mathematical integers, and
    division truncates towards zero, as in C. The two agree as long as no value leaves the
    range of a 32-bit \<^verbatim>\<open>int\<close>: the statements about the transfer lengths assume the
    \<^verbatim>\<open>int\<close> ranges of their inputs, and show that every value computed by the segment
    walk stays in that range (\<open>walk_in_range\<close>).
  \<^item> Bus addresses and registers (\<^verbatim>\<open>u32\<close>, \<^verbatim>\<open>dma_addr_t\<close>) are 32-bit words.
  \<^item> A pointer is an \<open>option\<close>: \<open>None\<close> is \<^verbatim>\<open>NULL\<close>. A pointer into the scatterlist
    is the index of the entry; a pointer to a DMA descriptor is the bus address of the
    descriptor (the coherent allocation gives the CPU and the device the same memory).
  \<^item> A kernel \<^verbatim>\<open>BUG_ON\<close> and a dereference of an invalid pointer are error results.
\<close>

type_synonym u32 = "32 word"

datatype error = BUG | BAD_POINTER | ENOMEM

subsection \<open>Constants of the driver\<close>

definition CICR0_ENB :: u32 where "CICR0_ENB = push_bit 28 1"
definition CICR0_EOFM :: u32 where "CICR0_EOFM = push_bit 1 1"
definition CIFR_RESET_F :: u32 where "CIFR_RESET_F = push_bit 3 1"
definition CISR_EOF :: u32 where "CISR_EOF = push_bit 3 1"
definition CISR_IFO_2 :: u32 where "CISR_IFO_2 = push_bit 2 1"
definition CISR_IFO_1 :: u32 where "CISR_IFO_1 = push_bit 1 1"
definition CISR_IFO_0 :: u32 where "CISR_IFO_0 = push_bit 0 1"

text \<open>\<^verbatim>\<open>enum pxa_camera_active_dma\<close>: the bits of a buffer's channel mask.\<close>

definition DMA_Y :: u32 where "DMA_Y = 0x1"
definition DMA_U :: u32 where "DMA_U = 0x2"
definition DMA_V :: u32 where "DMA_V = 0x4"

text \<open>
  The register bits of the PXA DMA controller come from the platform header
  \<^verbatim>\<open>mach/dma.h\<close>, which is not among the sources. They are parameters of the model: every
  function that uses one takes this record.
\<close>

record dma_defs =
  DCMD_FLOWSRC :: u32
  DCMD_BURST8 :: u32
  DCMD_INCTRGADDR :: u32
  DCMD_ENDIRQEN :: u32
  DCMD_LENGTH :: u32
  DDADR_STOP :: u32
  DCSR_RUN :: u32
  DCSR_BUSERR :: u32
  DCSR_ENDINTR :: u32
  DCSR_STARTINTR :: u32

subsection \<open>Descriptors, scatterlists, buffers\<close>

text \<open>
  \<^verbatim>\<open>struct pxa_dma_desc\<close>: the driver writes its four 32-bit fields, so a descriptor
  occupies 16 bytes.
\<close>

record pxa_dma_desc =
  ddadr :: u32
  dsadr :: u32
  dtadr :: u32
  dcmd :: u32

definition sizeof_pxa_dma_desc :: int where
  "sizeof_pxa_dma_desc = 16"

text \<open>Descriptor memory, addressed by bus address.\<close>

type_synonym dmem = "u32 \<Rightarrow> pxa_dma_desc"

text \<open>The address of \<^verbatim>\<open>sg_cpu[i]\<close>, that is \<^verbatim>\<open>sg_dma + i * sizeof(struct pxa_dma_desc)\<close>.\<close>

definition desc_addr :: "u32 \<Rightarrow> int \<Rightarrow> u32" where
  "desc_addr base i = base + word_of_int (i * sizeof_pxa_dma_desc)"

text \<open>
  One entry of the buffer's physical memory map. \<^verbatim>\<open>sg_dma_len\<close> is read into an
  \<^verbatim>\<open>int\<close> by the driver.
\<close>

record scatterlist =
  dma_address :: u32
  dma_length :: int

definition sg_dma_len :: "scatterlist \<Rightarrow> int" where
  "sg_dma_len sg = dma_length sg"

definition sg_dma_address :: "scatterlist \<Rightarrow> u32" where
  "sg_dma_address sg = dma_address sg"

text \<open>\<^verbatim>\<open>sg_next\<close>: the entry after \<open>j\<close>, or \<^verbatim>\<open>NULL\<close> after the last entry of the list.\<close>

definition sg_next :: "scatterlist list \<Rightarrow> nat \<Rightarrow> nat option" where
  "sg_next sgl j = (if Suc j < length sgl then Some (Suc j) else None)"

text \<open>
  The kernel's \<^verbatim>\<open>roundup(x, y)\<close> macro: \<^verbatim>\<open>(((x) + ((y) - 1)) / (y)) * (y)\<close>, over the
  integers. On \<^verbatim>\<open>int\<close> operands the macro computes this value as long as
  \<^verbatim>\<open>x + (y - 1)\<close> does not leave the range of \<^verbatim>\<open>int\<close>; \<open>walk_in_range\<close> below states that
  for the walks of the driver.
\<close>

definition roundup :: "int \<Rightarrow> int \<Rightarrow> int" where
  "roundup x y = ((x + (y - 1)) sdiv y) * y"

text \<open>\<^verbatim>\<open>struct pxa_cam_dma\<close>: the descriptor array of one channel of one buffer.\<close>

record pxa_cam_dma =
  sg_dma :: u32
  sg_cpu :: "u32 option"
  sg_size :: int
  sglen :: int

datatype videobuf_state =
  VIDEOBUF_NEEDS_INIT | VIDEOBUF_PREPARED | VIDEOBUF_QUEUED | VIDEOBUF_ACTIVE
  | VIDEOBUF_DONE | VIDEOBUF_ERROR | VIDEOBUF_IDLE

text \<open>
  \<^verbatim>\<open>struct pxa_buffer\<close> with the fields of its \<^verbatim>\<open>videobuf_buffer\<close> that the capture
  engine touches. \<open>vb_done\<close> counts the \<^verbatim>\<open>wake_up(&vb->done)\<close> calls on the buffer; the
  time stamp is left out.
\<close>

record pxa_buffer =
  vb_state :: videobuf_state
  vb_field_count :: nat
  vb_done :: nat
  dmas :: "nat \<Rightarrow> pxa_cam_dma"
  inwork :: bool
  active_dma :: u32

subsection \<open>ChainBuilder\<close>

text \<open>
  The loop of \<^verbatim>\<open>calculate_dma_sglen\<close>. \<^verbatim>\<open>for_each_sg(sglist, sg, sglen, i)\<close> is
  \<^verbatim>\<open>for (i = 0, sg = sglist; i < sglen; i++, sg = sg_next(sg))\<close>; the first argument
  counts the iterations that are left. The result is the pair \<open>(i, size)\<close> at the exit of
  the loop; the C variables \<^verbatim>\<open>size\<close> and \<^verbatim>\<open>sglen\<close> are written \<open>sz\<close> and \<open>nr\<close>.
\<close>

fun calc_loop ::
  "scatterlist list \<Rightarrow> nat \<Rightarrow> nat option \<Rightarrow> int \<Rightarrow> int \<Rightarrow> int \<Rightarrow> error + (int \<times> int)"
where
  "calc_loop sgl 0 sg i offset sz = Inr (i, sz)"
| "calc_loop sgl (Suc k) sg i offset sz =
     (case sg of
        None \<Rightarrow> Inl BAD_POINTER
      | Some j \<Rightarrow>
          if length sgl \<le> j then Inl BAD_POINTER
          else
            let dma_len = sg_dma_len (sgl ! j);
                xfer_len = roundup (min (dma_len - offset) sz) 8;
                size' = max 0 (sz - xfer_len)
            in if size' = 0 then Inr (i, size')
               else calc_loop sgl k (sg_next sgl j) (i + 1) 0 size')"

definition calculate_dma_sglen ::
  "scatterlist list \<Rightarrow> nat option \<Rightarrow> int \<Rightarrow> int \<Rightarrow> int \<Rightarrow> error + int"
where
  "calculate_dma_sglen sgl sglist nr sg_first_ofs sz =
     (case calc_loop sgl (nat nr) sglist 0 sg_first_ofs sz of
        Inl e \<Rightarrow> Inl e
      | Inr (i, size') \<Rightarrow> if size' \<noteq> 0 then Inl BUG else Inr (i + 1))"

text \<open>The local variables of \<^verbatim>\<open>pxa_init_dma_channel\<close> that its loop updates.\<close>

record init_vars =
  v_i :: int
  v_sg :: "nat option"
  v_size :: int
  v_offset :: int
  v_dma_len :: int
  v_xfer_len :: int
  v_mem :: dmem

text \<open>
  The descriptor loop of \<^verbatim>\<open>pxa_init_dma_channel\<close>; \<open>src\<close> is
  \<^verbatim>\<open>pcdev->res->start + cibr\<close> and \<open>base\<close> is \<^verbatim>\<open>pxa_dma->sg_dma\<close>. (The
  \<^verbatim>\<open>DEBUG\<close>-only start interrupt flag is not compiled in.)
\<close>

fun init_loop ::
  "dma_defs \<Rightarrow> scatterlist list \<Rightarrow> u32 \<Rightarrow> u32 \<Rightarrow> nat \<Rightarrow> init_vars \<Rightarrow> error + init_vars"
where
  "init_loop c sgl src base 0 v = Inr v"
| "init_loop c sgl src base (Suc k) v =
     (case v_sg v of
        None \<Rightarrow> Inl BAD_POINTER
      | Some j \<Rightarrow>
          if length sgl \<le> j then Inl BAD_POINTER
          else
            let dma_len = sg_dma_len (sgl ! j);
                xfer_len = roundup (min (dma_len - v_offset v) (v_size v)) 8;
                size' = max 0 (v_size v - xfer_len);
                d = \<lparr> ddadr = desc_addr base (v_i v + 1),
                      dsadr = src,
                      dtadr = sg_dma_address (sgl ! j) + word_of_int (v_offset v),
                      dcmd = DCMD_FLOWSRC c OR DCMD_BURST8 c OR DCMD_INCTRGADDR c
                               OR word_of_int xfer_len \<rparr>;
                v' = v \<lparr> v_size := size', v_offset := 0, v_dma_len := dma_len,
                         v_xfer_len := xfer_len,
                         v_mem := (v_mem v) (desc_addr base (v_i v) := d) \<rparr>
            in if size' = 0 then Inr v'
               else init_loop c sgl src base k
                      (v' \<lparr> v_i := v_i v + 1, v_sg := sg_next sgl j \<rparr>))"

text \<open>
  \<^verbatim>\<open>pxa_init_dma_channel\<close>. \<open>alloc\<close> stands for \<^verbatim>\<open>dma_alloc_coherent\<close>: given the
  size in bytes it yields the bus address of the new array, or \<open>None\<close>. The scatterlist
  \<open>sgl\<close> has \<open>dma_sglen\<close> entries (\<^verbatim>\<open>dma->sglen\<close>). The result is the descriptor
  memory, the buffer, and the cursor \<open>(sg_first, sg_first_ofs)\<close> for the next channel.
\<close>

definition pxa_init_dma_channel ::
  "dma_defs \<Rightarrow> u32 \<Rightarrow> (int \<Rightarrow> u32 option) \<Rightarrow> scatterlist list \<Rightarrow> int \<Rightarrow>
   dmem \<Rightarrow> pxa_buffer \<Rightarrow> nat \<Rightarrow> int \<Rightarrow> int \<Rightarrow> nat option \<Rightarrow> int \<Rightarrow>
   error + (dmem \<times> pxa_buffer \<times> nat option \<times> int)"
where
  "pxa_init_dma_channel c res_start alloc sgl dma_sglen mem buf channel cibr sz
       sg_first sg_first_ofs =
     (case calculate_dma_sglen sgl sg_first dma_sglen sg_first_ofs sz of
        Inl e \<Rightarrow> Inl e
      | Inr n \<Rightarrow>
          let bytes = (n + 1) * sizeof_pxa_dma_desc in
          (case alloc bytes of
             None \<Rightarrow> Inl ENOMEM
           | Some base \<Rightarrow>
               let pxa_dma = \<lparr> sg_dma = base, sg_cpu = Some base, sg_size = bytes, sglen = n \<rparr>;
                   v0 = \<lparr> v_i = 0, v_sg = sg_first, v_size = sz, v_offset = sg_first_ofs,
                          v_dma_len = 0, v_xfer_len = 0, v_mem = mem \<rparr>
               in (case init_loop c sgl (res_start + word_of_int cibr) base (nat n) v0 of
                     Inl e \<Rightarrow> Inl e
                   | Inr v \<Rightarrow>
                       let last = desc_addr base n;
                           mem' = (v_mem v) (last := (v_mem v last)
                                    \<lparr> ddadr := DDADR_STOP c,
                                      dcmd := DCMD_FLOWSRC c OR DCMD_BURST8 c
                                                OR DCMD_ENDIRQEN c \<rparr>);
                           buf' = buf \<lparr> dmas := (dmas buf) (channel := pxa_dma) \<rparr>
                       in if v_xfer_len v \<ge> v_dma_len v
                          then (case v_sg v of
                                  None \<Rightarrow> Inl BAD_POINTER
                                | Some j \<Rightarrow>
                                    if length sgl \<le> j then Inl BAD_POINTER
                                    else Inr (mem', buf', sg_next sgl j,
                                              v_xfer_len v - v_dma_len v))
                          else Inr (mem', buf', v_sg v, v_xfer_len v))))"

subsection \<open>The device: driver state, memory and registers\<close>

text \<open>
  Writes to the memory-mapped registers, in program order. A register is modelled as a
  cell that holds the value last written (reads return the cell); what the hardware does
  with its registers between two entries of the driver is the environment's part, see
  \<open>hw_step\<close> below. Every write is also recorded in the trace \<open>mmio\<close>.
\<close>

datatype mmio_write =
  W_DCSR nat u32 | W_DDADR nat u32 | W_CICR0 u32 | W_CIFR u32 | W_CISR u32

text \<open>
  \<^verbatim>\<open>struct pxa_camera_dev\<close>, together with the memory it points into (the buffers
  \<open>bufs\<close>, addressed by a buffer number, and the descriptor memory \<open>descs\<close>) and the
  registers of the camera interface and of the DMA controller (indexed by DMA channel
  number). The capture list holds buffer numbers, head first.
\<close>

record pxa_camera_dev =
  channels :: int
  dma_chans :: "nat \<Rightarrow> nat"
  capture :: "nat list"
  active :: "nat option"
  sg_tail :: "nat \<Rightarrow> u32 option"
  bufs :: "nat \<Rightarrow> pxa_buffer"
  descs :: dmem
  r_cicr0 :: u32
  r_cifr :: u32
  r_cisr :: u32
  r_dcsr :: "nat \<Rightarrow> u32"
  r_ddadr :: "nat \<Rightarrow> u32"
  mmio :: "mmio_write list"

definition write_DCSR :: "nat \<Rightarrow> u32 \<Rightarrow> pxa_camera_dev \<Rightarrow> pxa_camera_dev" where
  "write_DCSR ch v s = s \<lparr> r_dcsr := (r_dcsr s) (ch := v), mmio := mmio s @ [W_DCSR ch v] \<rparr>"

definition write_DDADR :: "nat \<Rightarrow> u32 \<Rightarrow> pxa_camera_dev \<Rightarrow> pxa_camera_dev" where
  "write_DDADR ch v s = s \<lparr> r_ddadr := (r_ddadr s) (ch := v), mmio := mmio s @ [W_DDADR ch v] \<rparr>"

definition write_CICR0 :: "u32 \<Rightarrow> pxa_camera_dev \<Rightarrow> pxa_camera_dev" where
  "write_CICR0 v s = s \<lparr> r_cicr0 := v, mmio := mmio s @ [W_CICR0 v] \<rparr>"

definition write_CIFR :: "u32 \<Rightarrow> pxa_camera_dev \<Rightarrow> pxa_camera_dev" where
  "write_CIFR v s = s \<lparr> r_cifr := v, mmio := mmio s @ [W_CIFR v] \<rparr>"

definition write_CISR :: "u32 \<Rightarrow> pxa_camera_dev \<Rightarrow> pxa_camera_dev" where
  "write_CISR v s = s \<lparr> r_cisr := v, mmio := mmio s @ [W_CISR v] \<rparr>"

text \<open>A loop body that may fail, run over a list of indices.\<close>

fun for_each :: "('a \<Rightarrow> 's \<Rightarrow> error + 's) \<Rightarrow> 'a list \<Rightarrow> 's \<Rightarrow> error + 's" where
  "for_each f [] s = Inr s"
| "for_each f (x # xs) s = (case f x s of Inl e \<Rightarrow> Inl e | Inr s' \<Rightarrow> for_each f xs s')"

text \<open>The channel indices of \<^verbatim>\<open>for (i = 0; i < pcdev->channels; i++)\<close>.\<close>

definition chan_range :: "pxa_camera_dev \<Rightarrow> nat list" where
  "chan_range s = [0..<nat (channels s)]"

definition pxa_videobuf_set_actdma :: "nat \<Rightarrow> pxa_camera_dev \<Rightarrow> pxa_camera_dev" where
  "pxa_videobuf_set_actdma b s =
     (let m = (if channels s = 3 then DMA_Y OR (DMA_U OR DMA_V) else DMA_Y)
      in s \<lparr> bufs := (bufs s) (b := (bufs s b) \<lparr> active_dma := m \<rparr>) \<rparr>)"

text \<open>\<^verbatim>\<open>pxa_dma_start_channels\<close>; the body reads through \<^verbatim>\<open>pcdev->active\<close>.\<close>

definition start_channel :: "dma_defs \<Rightarrow> nat \<Rightarrow> pxa_camera_dev \<Rightarrow> error + pxa_camera_dev" where
  "start_channel c i s =
     (case active s of
        None \<Rightarrow> Inl BAD_POINTER
      | Some a \<Rightarrow>
          Inr (write_DCSR (dma_chans s i) (DCSR_RUN c)
                 (write_DDADR (dma_chans s i) (sg_dma (dmas (bufs s a) i)) s)))"

definition pxa_dma_start_channels :: "dma_defs \<Rightarrow> pxa_camera_dev \<Rightarrow> error + pxa_camera_dev" where
  "pxa_dma_start_channels c s = for_each (start_channel c) (chan_range s) s"

definition pxa_dma_stop_channels :: "pxa_camera_dev \<Rightarrow> pxa_camera_dev" where
  "pxa_dma_stop_channels s = fold (\<lambda>i t. write_DCSR (dma_chans t i) 0 t) (chan_range s) s"

subsection \<open>ChainLinker\<close>

text \<open>
  One iteration of the loop of \<^verbatim>\<open>pxa_dma_add_tail_buf\<close> for buffer \<open>b\<close> and channel
  \<open>i\<close>. \<^verbatim>\<open>buf->dmas[i].sg_cpu + buf->dmas[i].sglen\<close> is the last descriptor of the
  array.
\<close>

definition add_tail_chan :: "dma_defs \<Rightarrow> nat \<Rightarrow> nat \<Rightarrow> pxa_camera_dev \<Rightarrow> error + pxa_camera_dev" where
  "add_tail_chan c b i s =
     (case sg_cpu (dmas (bufs s b) i) of
        None \<Rightarrow> Inl BAD_POINTER
      | Some cpu \<Rightarrow>
          let buf_last_desc = desc_addr cpu (sglen (dmas (bufs s b) i));
              m1 = (descs s) (buf_last_desc := (descs s buf_last_desc) \<lparr> ddadr := DDADR_STOP c \<rparr>);
              m2 = (case sg_tail s i of
                      None \<Rightarrow> m1
                    | Some t \<Rightarrow> m1 (t := (m1 t) \<lparr> ddadr := sg_dma (dmas (bufs s b) i) \<rparr>))
          in Inr (s \<lparr> descs := m2, sg_tail := (sg_tail s) (i := Some buf_last_desc) \<rparr>))"

definition pxa_dma_add_tail_buf :: "dma_defs \<Rightarrow> nat \<Rightarrow> pxa_camera_dev \<Rightarrow> error + pxa_camera_dev" where
  "pxa_dma_add_tail_buf c b s = for_each (add_tail_chan c b) (chan_range s) s"

subsection \<open>CaptureController\<close>

definition pxa_camera_start_capture :: "pxa_camera_dev \<Rightarrow> pxa_camera_dev" where
  "pxa_camera_start_capture s =
     (let s1 = write_CIFR (r_cifr s OR CIFR_RESET_F) s;
          cicr0 = (r_cicr0 s1 OR CICR0_ENB) AND NOT CICR0_EOFM
      in write_CICR0 cicr0 s1)"

definition pxa_camera_stop_capture :: "pxa_camera_dev \<Rightarrow> pxa_camera_dev" where
  "pxa_camera_stop_capture s =
     (let s1 = pxa_dma_stop_channels s;
          s2 = write_CICR0 (r_cicr0 s1 AND NOT CICR0_ENB) s1
      in s2 \<lparr> active := None \<rparr>)"

text \<open>\<^verbatim>\<open>pxa_videobuf_queue\<close>, under the device lock.\<close>

definition pxa_videobuf_queue :: "dma_defs \<Rightarrow> nat \<Rightarrow> pxa_camera_dev \<Rightarrow> error + pxa_camera_dev" where
  "pxa_videobuf_queue c b s =
     (let s1 = s \<lparr> capture := capture s @ [b] \<rparr>;
          s2 = s1 \<lparr> bufs := (bufs s1) (b := (bufs s1 b) \<lparr> vb_state := VIDEOBUF_ACTIVE \<rparr>) \<rparr>
      in case pxa_dma_add_tail_buf c b s2 of
           Inl e \<Rightarrow> Inl e
         | Inr s3 \<Rightarrow> Inr (if active s3 = None then pxa_camera_start_capture s3 else s3))"

text \<open>
  \<^verbatim>\<open>pxa_camera_wakeup\<close> for the buffer \<open>b\<close>: \<^verbatim>\<open>list_del_init\<close> takes it out of the
  capture list.
\<close>

definition pxa_camera_wakeup :: "nat \<Rightarrow> pxa_camera_dev \<Rightarrow> pxa_camera_dev" where
  "pxa_camera_wakeup b s =
     (let s1 = s \<lparr> capture := remove1 b (capture s),
                   bufs := (bufs s) (b := (bufs s b)
                             \<lparr> vb_state := VIDEOBUF_DONE,
                               vb_field_count := vb_field_count (bufs s b) + 1,
                               vb_done := vb_done (bufs s b) + 1 \<rparr>) \<rparr>
      in if capture s1 = []
         then (let s2 = pxa_camera_stop_capture s1
               in s2 \<lparr> sg_tail := fold (\<lambda>i t. t (i := None)) (chan_range s2) (sg_tail s2) \<rparr>)
         else s1 \<lparr> active := Some (hd (capture s1)) \<rparr>)"

definition pxa_camera_check_link_miss :: "dma_defs \<Rightarrow> pxa_camera_dev \<Rightarrow> pxa_camera_dev" where
  "pxa_camera_check_link_miss c s =
     (let is_dma_stopped =
            list_all (\<lambda>i. r_ddadr s (dma_chans s i) = DDADR_STOP c) (chan_range s)
      in if active s \<noteq> None \<and> is_dma_stopped then pxa_camera_start_capture s else s)"

text \<open>
  \<^verbatim>\<open>list_is_last(pcdev->capture.next, &pcdev->capture)\<close>: the first entry of the list
  is also its last one. On an empty list \<^verbatim>\<open>capture.next\<close> is the list head itself and
  the test is true as well.
\<close>

definition first_is_last :: "nat list \<Rightarrow> bool" where
  "first_is_last q = (length q \<le> 1)"

subsection \<open>ChannelCompletionHandler\<close>

text \<open>
  \<^verbatim>\<open>pxa_camera_dma_irq(channel, pcdev, act_dma)\<close>, from taking the lock to releasing it.
  The warning on an inconsistent active buffer only logs. \<open>overrun_mask\<close> is the value of
  the local variable \<^verbatim>\<open>overrun\<close>.
\<close>

definition overrun_mask :: "pxa_camera_dev \<Rightarrow> u32" where
  "overrun_mask s =
     (if channels s = 3 then CISR_IFO_0 OR (CISR_IFO_1 OR CISR_IFO_2) else CISR_IFO_0)"

definition pxa_camera_dma_irq ::
  "dma_defs \<Rightarrow> nat \<Rightarrow> u32 \<Rightarrow> pxa_camera_dev \<Rightarrow> pxa_camera_dev"
where
  "pxa_camera_dma_irq c channel act_dma s =
     (let status = r_dcsr s channel;
          s1 = write_DCSR channel status s;
          camera_status = r_cisr s1;
          overrun = overrun_mask s1
      in if status AND DCSR_BUSERR c \<noteq> 0 then s1
         else if status AND (DCSR_ENDINTR c OR DCSR_STARTINTR c) = 0 then s1
         else (case active s1 of
                 None \<Rightarrow> s1
               | Some b \<Rightarrow>
                   if status AND DCSR_ENDINTR c \<noteq> 0 then
                     if camera_status AND overrun \<noteq> 0 \<and> \<not> first_is_last (capture s1)
                     then pxa_camera_start_capture (pxa_camera_stop_capture s1)
                     else
                       let m = active_dma (bufs s1 b) AND NOT act_dma;
                           s2 = s1 \<lparr> bufs := (bufs s1) (b := (bufs s1 b) \<lparr> active_dma := m \<rparr>) \<rparr>
                       in if m = 0
                          then pxa_camera_check_link_miss c (pxa_camera_wakeup b s2)
                          else s2
                   else s1))"

datatype irqreturn = IRQ_NONE | IRQ_HANDLED

text \<open>
  \<^verbatim>\<open>pxa_camera_irq\<close>, the frame-boundary interrupt. \<^verbatim>\<open>list_first_entry\<close> of an empty
  list is not a buffer: using it is an error of the model.
\<close>

definition pxa_camera_irq :: "dma_defs \<Rightarrow> pxa_camera_dev \<Rightarrow> error + (irqreturn \<times> pxa_camera_dev)" where
  "pxa_camera_irq c s =
     (let status = r_cisr s
      in if status = 0 then Inr (IRQ_NONE, s)
         else
           let s1 = write_CISR status s
           in if status AND CISR_EOF \<noteq> 0
              then (case capture s1 of
                      [] \<Rightarrow> Inl BAD_POINTER
                    | b # _ \<Rightarrow>
                        let s2 = pxa_videobuf_set_actdma b (s1 \<lparr> active := Some b \<rparr>)
                        in (case pxa_dma_start_channels c s2 of
                              Inl e \<Rightarrow> Inl e
                            | Inr s3 \<Rightarrow>
                                Inr (IRQ_HANDLED, write_CICR0 (r_cicr0 s3 OR CICR0_EOFM) s3)))
              else Inr (IRQ_HANDLED, s1))"

subsection \<open>Notions used in the statements\<close>

text \<open>
  The bytes of the \<open>k\<close> scatterlist entries that start at entry \<open>j\<close> (fewer when the
  list ends before).
\<close>

definition sg_bytes :: "scatterlist list \<Rightarrow> nat \<Rightarrow> nat \<Rightarrow> int" where
  "sg_bytes sgl j k = sum_list (map sg_dma_len (take k (drop j sgl)))"

text \<open>
  The transfer lengths that the segment walk computes, one for each iteration, in order
  (the values of \<^verbatim>\<open>xfer_len\<close> in both loops).
\<close>

fun xfer_lens :: "scatterlist list \<Rightarrow> nat \<Rightarrow> nat option \<Rightarrow> int \<Rightarrow> int \<Rightarrow> int list" where
  "xfer_lens sgl 0 sg offset sz = []"
| "xfer_lens sgl (Suc k) sg offset sz =
     (case sg of
        None \<Rightarrow> []
      | Some j \<Rightarrow>
          if length sgl \<le> j then []
          else
            let dma_len = sg_dma_len (sgl ! j);
                xfer_len = roundup (min (dma_len - offset) sz) 8;
                size' = max 0 (sz - xfer_len)
            in if size' = 0 then [xfer_len]
               else xfer_len # xfer_lens sgl k (sg_next sgl j) 0 size')"

text \<open>
  The range of a 32-bit \<^verbatim>\<open>int\<close>, and a scatterlist entry whose length, read into an
  \<^verbatim>\<open>int\<close>, is a non-negative value of that range.
\<close>

definition c_int_range :: "int \<Rightarrow> bool" where
  "c_int_range x = (- (2 ^ 31) \<le> x \<and> x \<le> 2 ^ 31 - 1)"

definition seg_in_range :: "scatterlist \<Rightarrow> bool" where
  "seg_in_range sg = (0 \<le> sg_dma_len sg \<and> c_int_range (sg_dma_len sg))"

text \<open>
  No overflow in the segment walk: in each of at most \<open>k\<close> iterations that start at the
  entry \<open>sg\<close> with the offset and the size given, the values of \<^verbatim>\<open>dma_len\<close>,
  \<^verbatim>\<open>dma_len - offset\<close>, the sum \<^verbatim>\<open>x + (y - 1)\<close> inside \<^verbatim>\<open>roundup\<close>, \<^verbatim>\<open>xfer_len\<close> and
  \<^verbatim>\<open>size - xfer_len\<close> all lie in the range of \<^verbatim>\<open>int\<close>.
\<close>

fun walk_in_range :: "scatterlist list \<Rightarrow> nat \<Rightarrow> nat option \<Rightarrow> int \<Rightarrow> int \<Rightarrow> bool" where
  "walk_in_range sgl 0 sg offset sz = True"
| "walk_in_range sgl (Suc k) sg offset sz =
     (case sg of
        None \<Rightarrow> True
      | Some j \<Rightarrow>
          if length sgl \<le> j then True
          else
            let dma_len = sg_dma_len (sgl ! j);
                xfer_len = roundup (min (dma_len - offset) sz) 8;
                size' = max 0 (sz - xfer_len)
            in c_int_range dma_len \<and> c_int_range (dma_len - offset)
               \<and> c_int_range (min (dma_len - offset) sz + (8 - 1))
               \<and> c_int_range xfer_len \<and> c_int_range (sz - xfer_len)
               \<and> (if size' = 0 then True
                   else walk_in_range sgl k (sg_next sgl j) 0 size'))"

text \<open>
  The layout of the command word of a descriptor in \<^verbatim>\<open>mach/dma.h\<close>: the transfer length
  is the field of the low 13 bits (\<^verbatim>\<open>DCMD_LENGTH\<close>, \<^verbatim>\<open>0x01fff\<close>), and the flags that
  the builder sets lie outside of it. A scatterlist entry fits a descriptor when its length,
  rounded up to 8 bytes, fits that field; the entries of the driver's memory maps are pages.
\<close>

definition dcmd_layout :: "dma_defs \<Rightarrow> bool" where
  "dcmd_layout c =
     (DCMD_LENGTH c = 0x1fff
      \<and> (DCMD_FLOWSRC c OR DCMD_BURST8 c OR DCMD_INCTRGADDR c) AND DCMD_LENGTH c = 0)"

definition seg_fits :: "dma_defs \<Rightarrow> scatterlist \<Rightarrow> bool" where
  "seg_fits c sg = (0 \<le> sg_dma_len sg \<and> sg_dma_len sg + 7 \<le> uint (DCMD_LENGTH c))"

text \<open>The transfer length that a descriptor holds: the length field of its command word.\<close>

definition desc_length :: "dma_defs \<Rightarrow> pxa_dma_desc \<Rightarrow> int" where
  "desc_length c d = uint (dcmd d AND DCMD_LENGTH c)"

text \<open>
  One pass through the body of the descriptor loop, for the entry \<open>j\<close>: the descriptor
  written, and the variables after the body.
\<close>

definition data_desc :: "dma_defs \<Rightarrow> scatterlist list \<Rightarrow> u32 \<Rightarrow> u32 \<Rightarrow> init_vars \<Rightarrow> nat \<Rightarrow> pxa_dma_desc" where
  "data_desc c sgl src base v j =
     \<lparr> ddadr = desc_addr base (v_i v + 1), dsadr = src,
       dtadr = sg_dma_address (sgl ! j) + word_of_int (v_offset v),
       dcmd = DCMD_FLOWSRC c OR DCMD_BURST8 c OR DCMD_INCTRGADDR c
                OR word_of_int (roundup (min (sg_dma_len (sgl ! j) - v_offset v) (v_size v)) 8) \<rparr>"

definition after_body :: "dma_defs \<Rightarrow> scatterlist list \<Rightarrow> u32 \<Rightarrow> u32 \<Rightarrow> init_vars \<Rightarrow> nat \<Rightarrow> init_vars" where
  "after_body c sgl src base v j =
     v \<lparr> v_size := max 0 (v_size v - roundup (min (sg_dma_len (sgl ! j) - v_offset v) (v_size v)) 8),
         v_offset := 0, v_dma_len := sg_dma_len (sgl ! j),
         v_xfer_len := roundup (min (sg_dma_len (sgl ! j) - v_offset v) (v_size v)) 8,
         v_mem := (v_mem v) (desc_addr base (v_i v) := data_desc c sgl src base v j) \<rparr>"

text \<open>
  What the DMA engine does with a chain: \<open>reaches c mem n a t\<close> holds when following the
  link of the descriptor at \<open>a\<close> for \<open>n\<close> hops arrives at \<open>t\<close>, and none of the links
  followed is the stop marker.
\<close>

fun reaches :: "dma_defs \<Rightarrow> dmem \<Rightarrow> nat \<Rightarrow> u32 \<Rightarrow> u32 \<Rightarrow> bool" where
  "reaches c mem 0 a t = (a = t)"
| "reaches c mem (Suc n) a t =
     (ddadr (mem a) \<noteq> DDADR_STOP c \<and> reaches c mem n (ddadr (mem a)) t)"

text \<open>
  The number of descriptors whose link the engine reads, starting at \<open>a\<close>, until it reads
  the stop marker; \<open>None\<close> when \<open>fuel\<close> descriptors do not suffice.
\<close>

fun stop_hops :: "dma_defs \<Rightarrow> dmem \<Rightarrow> nat \<Rightarrow> u32 \<Rightarrow> nat option" where
  "stop_hops c mem 0 a = None"
| "stop_hops c mem (Suc fuel) a =
     (if ddadr (mem a) = DDADR_STOP c then Some 1
      else map_option Suc (stop_hops c mem fuel (ddadr (mem a))))"

text \<open>
  The contract of \<^verbatim>\<open>dma_alloc_coherent\<close> that the chains rely on: the array of the
  requested size lies in the 32-bit bus address space and is aligned to the descriptor
  size. The stop marker is not a descriptor address (it is not so aligned).
\<close>

definition coherent_ok :: "u32 \<Rightarrow> int \<Rightarrow> bool" where
  "coherent_ok base bytes = (sizeof_pxa_dma_desc dvd uint base \<and> uint base + bytes \<le> 2 ^ 32)"

definition stop_unaligned :: "dma_defs \<Rightarrow> bool" where
  "stop_unaligned c = (\<not> sizeof_pxa_dma_desc dvd uint (DDADR_STOP c))"

text \<open>The bus addresses of the descriptors of one channel of a buffer, and of a buffer.\<close>

definition chan_descs :: "pxa_buffer \<Rightarrow> nat \<Rightarrow> u32 list" where
  "chan_descs buf j =
     map (\<lambda>k. desc_addr (sg_dma (dmas buf j)) (int k)) [0..<Suc (nat (sglen (dmas buf j)))]"

definition buf_descs :: "pxa_buffer \<Rightarrow> nat list \<Rightarrow> u32 list" where
  "buf_descs buf js = concat (map (chan_descs buf) js)"

text \<open>A channel runs when the run bit of its control register is set.\<close>

definition chan_running :: "dma_defs \<Rightarrow> pxa_camera_dev \<Rightarrow> nat \<Rightarrow> bool" where
  "chan_running c s i = (r_dcsr s (dma_chans s i) AND DCSR_RUN c \<noteq> 0)"

definition any_running :: "dma_defs \<Rightarrow> pxa_camera_dev \<Rightarrow> bool" where
  "any_running c s = (\<exists>i \<in> set (chan_range s). chan_running c s i)"

text \<open>What \<^verbatim>\<open>pxa_camera_wakeup\<close> does to the buffer it retires.\<close>

definition retired :: "pxa_buffer \<Rightarrow> pxa_buffer" where
  "retired buf = buf \<lparr> vb_state := VIDEOBUF_DONE, vb_field_count := vb_field_count buf + 1,
                       vb_done := vb_done buf + 1 \<rparr>"

text \<open>
  The status that makes the DMA handler count a completion of the channel: the end of a
  transfer without bus error, and not the overrun on a queue with a further buffer that
  restarts the capture.
\<close>

definition completion :: "dma_defs \<Rightarrow> nat \<Rightarrow> pxa_camera_dev \<Rightarrow> bool" where
  "completion c channel s =
     (r_dcsr s channel AND DCSR_BUSERR c = 0 \<and> r_dcsr s channel AND DCSR_ENDINTR c \<noteq> 0
      \<and> (r_cisr s AND overrun_mask s = 0 \<or> first_is_last (capture s)))"

text \<open>Armed: the interface is enabled and the end-of-frame interrupt is unmasked.\<close>

definition armed :: "pxa_camera_dev \<Rightarrow> bool" where
  "armed s = (r_cicr0 s AND CICR0_ENB \<noteq> 0 \<and> r_cicr0 s AND CICR0_EOFM = 0)"

text \<open>Idle, as the probe leaves the device: nothing queued, nothing running, disabled.\<close>

definition idle :: "dma_defs \<Rightarrow> pxa_camera_dev \<Rightarrow> bool" where
  "idle c s = (capture s = [] \<and> active s = None \<and> \<not> any_running c s
               \<and> r_cicr0 s AND CICR0_ENB = 0)"

text \<open>
  The hardware between two entries of the driver: it changes its status and descriptor
  pointer registers at will, but it does not set the run bit of a channel.
\<close>

definition hw_step :: "dma_defs \<Rightarrow> pxa_camera_dev \<Rightarrow> pxa_camera_dev \<Rightarrow> bool" where
  "hw_step c s s' =
     (\<exists>d dd cs. s' = s \<lparr> r_cisr := cs, r_dcsr := d, r_ddadr := dd \<rparr>
        \<and> (\<forall>ch. d ch AND DCSR_RUN c \<noteq> 0 \<longrightarrow> r_dcsr s ch AND DCSR_RUN c \<noteq> 0))"

text \<open>
  The capture state machine: from an idle device, the hardware acts, a buffer that is not
  queued yet is submitted, the frame-boundary interrupt is taken (the interface raises it
  only while armed), or a DMA interrupt is taken for some channel.
\<close>

inductive reachable :: "dma_defs \<Rightarrow> pxa_camera_dev \<Rightarrow> bool" for c :: dma_defs where
  r_idle: "idle c s \<Longrightarrow> reachable c s"
| r_hw: "reachable c s \<Longrightarrow> hw_step c s s' \<Longrightarrow> reachable c s'"
| r_queue: "reachable c s \<Longrightarrow> b \<notin> set (capture s) \<Longrightarrow> pxa_videobuf_queue c b s = Inr s'
            \<Longrightarrow> reachable c s'"
| r_irq: "reachable c s \<Longrightarrow> armed s \<Longrightarrow> pxa_camera_irq c s = Inr (r, s') \<Longrightarrow> reachable c s'"
| r_dma_irq: "reachable c s \<Longrightarrow> reachable c (pxa_camera_dma_irq c channel act_dma s)"

text \<open>
  The invariant of the state machine: while a channel runs, and while the interface is
  armed, the capture queue holds a buffer.
\<close>

definition queue_inv :: "dma_defs \<Rightarrow> pxa_camera_dev \<Rightarrow> bool" where
  "queue_inv c s = ((any_running c s \<longrightarrow> capture s \<noteq> []) \<and> (armed s \<longrightarrow> capture s \<noteq> []))"

text \<open>
  The last descriptor of a buffer's chain on a channel (\<^verbatim>\<open>buf_last_desc\<close> of
  \<^verbatim>\<open>pxa_dma_add_tail_buf\<close>, by its bus address), and a buffer whose chain on a channel has
  been built: the CPU pointer and the bus address name the same array, of
  \<^verbatim>\<open>sglen + 1\<close> descriptors.
\<close>

definition last_desc :: "pxa_buffer \<Rightarrow> nat \<Rightarrow> u32" where
  "last_desc buf j = desc_addr (sg_dma (dmas buf j)) (sglen (dmas buf j))"

definition prepared :: "pxa_buffer \<Rightarrow> nat \<Rightarrow> bool" where
  "prepared buf j = (sg_cpu (dmas buf j) = Some (sg_dma (dmas buf j)) \<and> 0 \<le> sglen (dmas buf j))"

subsection \<open>Concrete inputs\<close>

text \<open>A memory map of three pages of 4096 bytes.\<close>

definition sgl0 :: "scatterlist list" where
  "sgl0 = [\<lparr>dma_address = 0x1000, dma_length = 4096\<rparr>,
           \<lparr>dma_address = 0x5000, dma_length = 4096\<rparr>,
           \<lparr>dma_address = 0x3000, dma_length = 4096\<rparr>]"

text \<open>
  The register bits as the PXA27x DMA controller has them, an empty descriptor memory, an
  unprepared buffer and an allocator that returns a fixed array.
\<close>

definition c0 :: dma_defs where
  "c0 = \<lparr> DCMD_FLOWSRC = push_bit 29 1, DCMD_BURST8 = push_bit 16 1,
          DCMD_INCTRGADDR = push_bit 30 1, DCMD_ENDIRQEN = push_bit 21 1,
          DCMD_LENGTH = 0x1fff,
          DDADR_STOP = 1, DCSR_RUN = push_bit 31 1, DCSR_BUSERR = 1,
          DCSR_ENDINTR = push_bit 2 1, DCSR_STARTINTR = push_bit 1 1 \<rparr>"

definition mem0 :: dmem where
  "mem0 = (\<lambda>a. \<lparr> ddadr = 0, dsadr = 0, dtadr = 0, dcmd = 0 \<rparr>)"

definition buf0 :: pxa_buffer where
  "buf0 = \<lparr> vb_state = VIDEOBUF_NEEDS_INIT, vb_field_count = 0, vb_done = 0,
            dmas = (\<lambda>i. \<lparr> sg_dma = 0, sg_cpu = None, sg_size = 0, sglen = 0 \<rparr>),
            inwork = True, active_dma = 0 \<rparr>"

definition alloc0 :: "int \<Rightarrow> u32 option" where
  "alloc0 bytes = Some 0x100000"

text \<open>
  A device with three channels on the DMA channels 4, 5 and 6, as the probe leaves it, and
  the same device while the first of two queued buffers is being captured.
\<close>

definition dev0 :: pxa_camera_dev where
  "dev0 = \<lparr> channels = 3, dma_chans = (\<lambda>i. i + 4), capture = [], active = None,
            sg_tail = (\<lambda>i. None), bufs = (\<lambda>b. buf0), descs = mem0,
            r_cicr0 = 0x3ff, r_cifr = 0, r_cisr = 0, r_dcsr = (\<lambda>ch. 0),
            r_ddadr = (\<lambda>ch. 0), mmio = [] \<rparr>"

definition dev1 :: pxa_camera_dev where
  "dev1 = dev0 \<lparr> capture := [7, 8], active := Some 7,
                 bufs := (\<lambda>b. buf0 \<lparr> vb_state := VIDEOBUF_ACTIVE, inwork := False,
                                       active_dma := 7 \<rparr>),
                 r_dcsr := (\<lambda>ch. 0x80000004) \<rparr>"

text \<open>
  The device with only the V channel of the active buffer still pending and every channel
  stopped at the end of its chain; and the states after the completions of V, of Y and of
  U on \<open>dev1\<close>.
\<close>

definition dev2 :: pxa_camera_dev where
  "dev2 = dev1 \<lparr> bufs := (\<lambda>b. buf0 \<lparr> vb_state := VIDEOBUF_ACTIVE, inwork := False,
                                       active_dma := 4 \<rparr>),
                 r_ddadr := (\<lambda>ch. 1) \<rparr>"

definition dev1_v :: pxa_camera_dev where
  "dev1_v = pxa_camera_dma_irq c0 6 DMA_V dev1"

definition dev1_vy :: pxa_camera_dev where
  "dev1_vy = pxa_camera_dma_irq c0 4 DMA_Y dev1_v"

definition dev1_vyu :: pxa_camera_dev where
  "dev1_vyu = pxa_camera_dma_irq c0 5 DMA_U dev1_vy"

text \<open>
  A prepared buffer with one data descriptor on each channel; the idle device whose buffers
  are prepared; that device after buffer 7 is queued; and after the end-of-frame interrupt
  that follows.
\<close>

definition bufp :: pxa_buffer where
  "bufp = \<lparr> vb_state = VIDEOBUF_PREPARED, vb_field_count = 0, vb_done = 0,
            dmas = (\<lambda>i. \<lparr> sg_dma = 0x100000 + 0x100 * of_nat i,
                           sg_cpu = Some (0x100000 + 0x100 * of_nat i),
                           sg_size = 32, sglen = 1 \<rparr>),
            inwork = False, active_dma = 7 \<rparr>"

definition devp :: pxa_camera_dev where
  "devp = dev0 \<lparr> bufs := (\<lambda>b. bufp) \<rparr>"

definition devq :: pxa_camera_dev where
  "devq = (case pxa_videobuf_queue c0 7 devp of Inr s \<Rightarrow> s | Inl e \<Rightarrow> devp)"

definition devr :: pxa_camera_dev where
  "devr = (case pxa_camera_irq c0 (devq \<lparr> r_cisr := CISR_EOF \<rparr>) of
             Inr (r, s) \<Rightarrow> s | Inl e \<Rightarrow> devq)"

text \<open>
  A device whose buffer \<open>b\<close> has its descriptor arrays at \<^verbatim>\<open>0x100000 + 0x1000 * b\<close>, one data
  descriptor on each channel, every descriptor linked to the next address, and whose
  channels have tails recorded from earlier buffers.
\<close>

definition bufl :: "nat \<Rightarrow> pxa_buffer" where
  "bufl b = bufp \<lparr> dmas := (\<lambda>i. \<lparr> sg_dma = 0x100000 + 0x1000 * of_nat b + 0x100 * of_nat i,
                                   sg_cpu = Some (0x100000 + 0x1000 * of_nat b + 0x100 * of_nat i),
                                   sg_size = 32, sglen = 1 \<rparr>) \<rparr>"

definition devl :: pxa_camera_dev where
  "devl = dev0 \<lparr> bufs := bufl,
                 sg_tail := (\<lambda>i. Some (0x200010 + 0x100 * of_nat i)),
                 descs := (\<lambda>a. \<lparr> ddadr = a + 16, dsadr = 0, dtadr = 0, dcmd = 0 \<rparr>) \<rparr>"

text \<open>
  The device between an overrun restart and the next frame boundary: two buffers queued,
  tails recorded, no buffer active, the camera status flagging an overrun, and the DMA
  channels signalling the end of a transfer.
\<close>

definition devn :: pxa_camera_dev where
  "devn = dev1 \<lparr> active := None, r_cisr := 1,
                 sg_tail := (\<lambda>i. Some (0x200010 + 0x100 * of_nat i)) \<rparr>"

section \<open>Verified properties\<close>

subsection \<open>Rounding\<close>

lemma roundup_ge: "x \<le> roundup x 8"
  by (simp add: roundup_def signed_divide_int_def sgn_if) presburger

lemma roundup8_nonneg: "0 \<le> x \<Longrightarrow> roundup x 8 = ((x + 7) div 8) * 8"
  by (simp add: roundup_def signed_divide_int_def sgn_if)

lemma roundup8_le: "0 \<le> x \<Longrightarrow> roundup x 8 \<le> x + 7"
  by (simp add: roundup8_nonneg)

lemma roundup8_neg: "x \<le> 0 \<Longrightarrow> roundup x 8 \<le> 0"
  by (simp add: roundup_def signed_divide_int_def sgn_if) presburger

lemma roundup8_dvd: "8 dvd roundup x 8"
  by (simp add: roundup_def)

subsection \<open>The segment walk of \<^verbatim>\<open>calculate_dma_sglen\<close>\<close>

lemma sg_bytes_Suc:
  "j < length sgl \<Longrightarrow> sg_bytes sgl j (Suc k) = sg_dma_len (sgl ! j) + sg_bytes sgl (Suc j) k"
  by (simp add: sg_bytes_def Cons_nth_drop_Suc [symmetric])

lemma sg_bytes_0: "sg_bytes sgl j 0 = 0"
  by (simp add: sg_bytes_def)

lemma sg_bytes_end: "length sgl \<le> j \<Longrightarrow> sg_bytes sgl j k = 0"
  by (simp add: sg_bytes_def)

lemma calc_loop_step:
  "j < length sgl \<Longrightarrow>
   calc_loop sgl (Suc k) (Some j) i ofs sz =
     (if sz - roundup (min (sg_dma_len (sgl ! j) - ofs) sz) 8 \<le> 0 then Inr (i, 0)
      else calc_loop sgl k (sg_next sgl j) (i + 1) 0
             (sz - roundup (min (sg_dma_len (sgl ! j) - ofs) sz) 8))"
  by (simp add: Let_def max_def)

text \<open>
  While bytes remain, the remaining size never exceeds the bytes of the segments ahead,
  so the walk ends by its \<^verbatim>\<open>break\<close>, inside the list.
\<close>

lemma calc_loop_covered:
  "j < length sgl \<Longrightarrow> 0 < k \<Longrightarrow> sz \<le> sg_bytes sgl j k - ofs \<Longrightarrow>
   \<exists>i'. calc_loop sgl k (Some j) i ofs sz = Inr (i', 0) \<and> i \<le> i'
        \<and> i' < i + int (min k (length sgl - j))"
proof (induction k arbitrary: j i ofs sz)
  case 0
  then show ?case by simp
next
  case (Suc k)
  define x where "x = roundup (min (sg_dma_len (sgl ! j) - ofs) sz) 8"
  note step = calc_loop_step [OF Suc.prems(1), of k i ofs sz, folded x_def]
  show ?case
  proof (cases "sz - x \<le> 0")
    case True
    with Suc.prems(1) show ?thesis
      unfolding step by simp
  next
    case False
    then have pos: "0 < sz - x" by simp
    have "min (sg_dma_len (sgl ! j) - ofs) sz \<le> x"
      unfolding x_def by (rule roundup_ge)
    with pos have m: "sg_dma_len (sgl ! j) - ofs \<le> x"
      by (simp add: min_def split: if_splits)
    from Suc.prems have "sz \<le> sg_dma_len (sgl ! j) + sg_bytes sgl (Suc j) k - ofs"
      by (simp add: sg_bytes_Suc)
    with m have cov: "sz - x \<le> sg_bytes sgl (Suc j) k - 0"
      by simp
    with pos have nz: "0 < sg_bytes sgl (Suc j) k"
      by simp
    have k: "0 < k"
    proof (rule ccontr)
      assume "\<not> 0 < k"
      then have "k = 0" by simp
      with nz show False by (simp add: sg_bytes_0)
    qed
    have j: "Suc j < length sgl"
    proof (rule ccontr)
      assume "\<not> Suc j < length sgl"
      then have "length sgl \<le> Suc j" by simp
      from sg_bytes_end [OF this, of k] nz show False by simp
    qed
    from Suc.IH [OF j k cov, of "i + 1"]
    obtain i' where i': "calc_loop sgl k (Some (Suc j)) (i + 1) 0 (sz - x) = Inr (i', 0)"
      "i + 1 \<le> i'" "i' < i + 1 + int (min k (length sgl - Suc j))"
      by blast
    have nx: "sg_next sgl j = Some (Suc j)"
      using j by (simp add: sg_next_def)
    have "calc_loop sgl (Suc k) (Some j) i ofs sz = Inr (i', 0)"
      unfolding step nx using False i'(1) by simp
    moreover have "i \<le> i'" using i'(2) by simp
    moreover have "i' < i + int (min (Suc k) (length sgl - j))"
    proof -
      have "min (Suc k) (length sgl - j) = Suc (min k (length sgl - Suc j))"
        using j by arith
      with i'(3) show ?thesis by simp
    qed
    ultimately show ?thesis by blast
  qed
qed

text \<open>
  Inside the \<^verbatim>\<open>int\<close> ranges of its inputs, with the start offset inside its segment, no
  value of the walk overflows.
\<close>

lemma seg_in_range_nth:
  "list_all seg_in_range sgl \<Longrightarrow> j < length sgl \<Longrightarrow>
   0 \<le> sg_dma_len (sgl ! j) \<and> sg_dma_len (sgl ! j) \<le> 2 ^ 31 - 1"
  by (simp add: list_all_length seg_in_range_def c_int_range_def)

lemma walk_in_range_step:
  "j < length sgl \<Longrightarrow>
   walk_in_range sgl (Suc k) (Some j) ofs sz =
     (c_int_range (sg_dma_len (sgl ! j)) \<and> c_int_range (sg_dma_len (sgl ! j) - ofs)
      \<and> c_int_range (min (sg_dma_len (sgl ! j) - ofs) sz + 7)
      \<and> c_int_range (roundup (min (sg_dma_len (sgl ! j) - ofs) sz) 8)
      \<and> c_int_range (sz - roundup (min (sg_dma_len (sgl ! j) - ofs) sz) 8)
      \<and> (sz - roundup (min (sg_dma_len (sgl ! j) - ofs) sz) 8 \<le> 0
           \<or> walk_in_range sgl k (sg_next sgl j) 0
                (sz - roundup (min (sg_dma_len (sgl ! j) - ofs) sz) 8)))"
  by (auto simp: Let_def max_def)

lemma walk_in_range_ok:
  assumes segs: "list_all seg_in_range sgl"
  shows "0 \<le> ofs \<Longrightarrow> \<forall>j. sg = Some j \<and> j < length sgl \<longrightarrow> ofs \<le> sg_dma_len (sgl ! j) \<Longrightarrow>
    c_int_range sz \<Longrightarrow> sz \<le> 2 ^ 31 - 8 \<Longrightarrow> walk_in_range sgl k sg ofs sz"
proof (induction k arbitrary: sg ofs sz)
  case 0
  then show ?case by simp
next
  case (Suc k)
  note walk_in_range.simps [simp del]
  show ?case
  proof (cases sg)
    case None
    then show ?thesis by (simp add: walk_in_range.simps)
  next
    case (Some j)
    show ?thesis
    proof (cases "j < length sgl")
      case False
      with Some show ?thesis by (simp add: walk_in_range.simps)
    next
      case True
      define d where "d = sg_dma_len (sgl ! j) - ofs"
      define x where "x = roundup (min d sz) 8"
      from seg_in_range_nth [OF segs True]
      have len: "0 \<le> sg_dma_len (sgl ! j)" "sg_dma_len (sgl ! j) \<le> 2 ^ 31 - 1" by simp_all
      from Suc.prems(2) Some True have ofs: "ofs \<le> sg_dma_len (sgl ! j)" by simp
      from Suc.prems(3) have sz: "- (2 ^ 31) \<le> sz" by (simp add: c_int_range_def)
      from ofs Suc.prems(1) len have d: "0 \<le> d" "d \<le> 2 ^ 31 - 1" by (simp_all add: d_def)
      have ge: "min d sz \<le> x" unfolding x_def by (rule roundup_ge)
      have up: "x \<le> min d sz + 7" if "0 \<le> sz"
      proof -
        from that d(1) have "0 \<le> min d sz" by simp
        from roundup8_le [OF this] show ?thesis by (simp add: x_def)
      qed
      have neg: "x \<le> 0" if "sz < 0"
      proof -
        from that have "min d sz \<le> 0" by simp
        from roundup8_neg [OF this] show ?thesis by (simp add: x_def)
      qed
      have r1: "c_int_range (sg_dma_len (sgl ! j))" "c_int_range d"
        using len d by (simp_all add: c_int_range_def)
      have r2: "c_int_range (min d sz + 7)"
        using d sz Suc.prems(4) by (simp add: c_int_range_def min_def)
      have xr: "- (2 ^ 31) \<le> x \<and> x \<le> 2 ^ 31 - 1 \<and> - (2 ^ 31) \<le> sz - x \<and> sz - x \<le> 2 ^ 31 - 8
          \<and> sz - x \<le> max 0 sz"
      proof (cases "0 \<le> sz")
        case True
        from up [OF True] ge d True Suc.prems(4) show ?thesis
          by (simp add: min_def max_def split: if_splits)
      next
        case False
        then have n: "sz < 0" by simp
        with d(1) have "min d sz = sz" by simp
        with ge neg [OF n] sz n show ?thesis by (simp add: max_def)
      qed
      then have r3: "c_int_range x" "c_int_range (sz - x)"
        by (simp_all add: c_int_range_def)
      have r4: "sz - x \<le> 0 \<or> walk_in_range sgl k (sg_next sgl j) 0 (sz - x)"
      proof (cases "sz - x \<le> 0")
        case True
        then show ?thesis by simp
      next
        case False
        have "\<forall>j'. sg_next sgl j = Some j' \<and> j' < length sgl \<longrightarrow> 0 \<le> sg_dma_len (sgl ! j')"
          using seg_in_range_nth [OF segs] by blast
        moreover from xr have "c_int_range (sz - x)" "sz - x \<le> 2 ^ 31 - 8"
          by (simp_all add: c_int_range_def)
        ultimately have "walk_in_range sgl k (sg_next sgl j) 0 (sz - x)"
          by (intro Suc.IH) simp_all
        then show ?thesis by simp
      qed
      show ?thesis
        unfolding Some walk_in_range_step [OF True] d_def [symmetric] x_def [symmetric]
        using r1 r2 r3 r4 by simp
    qed
  qed
qed

text \<open>
  Claim C9. The cursor designates a segment, at an offset inside it; the segment count is
  positive; the segment lengths and the requested size are values of \<^verbatim>\<open>int\<close>, the size at
  most \<^verbatim>\<open>INT_MAX - 7\<close>; and the bytes of the segments walked (from the cursor, less the
  start offset) are at least the requested size. Then no value of the walk overflows and
  \<^verbatim>\<open>calculate_dma_sglen\<close> returns normally: its loop leaves by the \<^verbatim>\<open>break\<close> with the
  remaining size exactly 0, so the \<^verbatim>\<open>BUG_ON(size != 0)\<close> does not fire, and the returned
  descriptor count lies between 1 and the segment count (and within the segments that
  follow the cursor).
\<close>

theorem calculate_dma_sglen_covered:
  assumes "j < length sgl" and "0 < nr"
    and "list_all seg_in_range sgl"
    and "0 \<le> ofs" and "ofs \<le> sg_dma_len (sgl ! j)"
    and "c_int_range sz" and "sz \<le> 2 ^ 31 - 8"
    and "sz \<le> sg_bytes sgl j (nat nr) - ofs"
  shows "\<exists>n. calculate_dma_sglen sgl (Some j) nr ofs sz = Inr n
              \<and> calc_loop sgl (nat nr) (Some j) 0 ofs sz = Inr (n - 1, 0)
              \<and> 1 \<le> n \<and> n \<le> nr \<and> n \<le> int (length sgl - j)
              \<and> walk_in_range sgl (nat nr) (Some j) ofs sz"
proof -
  from assms(2) have k: "0 < nat nr" by simp
  from calc_loop_covered [OF assms(1) k assms(8), of 0]
  obtain i' where i': "calc_loop sgl (nat nr) (Some j) 0 ofs sz = Inr (i', 0)"
    "0 \<le> i'" "i' < 0 + int (min (nat nr) (length sgl - j))"
    by blast
  have "calculate_dma_sglen sgl (Some j) nr ofs sz = Inr (i' + 1)"
    by (simp add: calculate_dma_sglen_def i'(1))
  moreover have "i' + 1 \<le> nr" "i' + 1 \<le> int (length sgl - j)"
    using i'(3) assms(2) by simp_all
  moreover have "walk_in_range sgl (nat nr) (Some j) ofs sz"
    using assms(5) by (intro walk_in_range_ok [OF assms(3,4) _ assms(6,7)]) simp
  ultimately show ?thesis
    using i'(1,2) by simp
qed

theorem calculate_dma_sglen_covered_witness:
  "(1::nat) < length sgl0 \<and> (0::int) < 3 \<and> list_all seg_in_range sgl0
   \<and> (0::int) \<le> 2048 \<and> 2048 \<le> sg_dma_len (sgl0 ! 1)
   \<and> c_int_range 6000 \<and> (6000::int) \<le> 2 ^ 31 - 8
   \<and> 6000 \<le> sg_bytes sgl0 1 (nat 3) - 2048
   \<and> calculate_dma_sglen sgl0 (Some 1) 3 2048 6000 = Inr 2
   \<and> calc_loop sgl0 (nat 3) (Some 1) 0 2048 6000 = Inr (2 - 1, 0)
   \<and> walk_in_range sgl0 (nat 3) (Some 1) 2048 6000"
proof -
  have h1: "(1::nat) < length sgl0" by (simp add: sgl0_def)
  have h2: "(0::int) < 3" by simp
  have h3: "list_all seg_in_range sgl0"
    by (simp add: sgl0_def seg_in_range_def c_int_range_def sg_dma_len_def)
  have h4: "(0::int) \<le> 2048" by simp
  have h5: "2048 \<le> sg_dma_len (sgl0 ! 1)" by (simp add: sgl0_def sg_dma_len_def)
  have h6: "c_int_range 6000" by (simp add: c_int_range_def)
  have h7: "(6000::int) \<le> 2 ^ 31 - 8" by simp
  have h8: "6000 \<le> sg_bytes sgl0 1 (nat 3) - 2048"
    by (simp add: sgl0_def sg_bytes_def sg_dma_len_def)
  from calculate_dma_sglen_covered [OF h1 h2 h3 h4 h5 h6 h7 h8]
  obtain n where n: "calculate_dma_sglen sgl0 (Some 1) 3 2048 6000 = Inr n"
    "calc_loop sgl0 (nat 3) (Some 1) 0 2048 6000 = Inr (n - 1, 0)"
    "walk_in_range sgl0 (nat 3) (Some 1) 2048 6000"
    by blast
  have "calculate_dma_sglen sgl0 (Some 1) 3 2048 6000 = Inr 2" by code_simp
  with n(1) have "n = 2" by simp
  with n h1 h2 h3 h4 h5 h6 h7 h8 show ?thesis by simp
qed

subsection \<open>The descriptor loop of \<^verbatim>\<open>pxa_init_dma_channel\<close>\<close>

lemma calc_loop_break:
  "calc_loop sgl k sg i ofs sz = Inr (i', 0) \<Longrightarrow> 0 < k \<Longrightarrow>
   \<exists>j. sg = Some j \<and> j < length sgl \<and>
     (if sz - roundup (min (sg_dma_len (sgl ! j) - ofs) sz) 8 \<le> 0 then i' = i
      else 1 < k \<and> calc_loop sgl (k - 1) (sg_next sgl j) (i + 1) 0
             (sz - roundup (min (sg_dma_len (sgl ! j) - ofs) sz) 8) = Inr (i', 0))"
proof (cases k)
  case 0
  then show "0 < k \<Longrightarrow> ?thesis" by simp
next
  case (Suc k')
  assume r: "calc_loop sgl k sg i ofs sz = Inr (i', 0)"
  from r Suc obtain j where j: "sg = Some j" "j < length sgl"
    by (auto split: option.splits if_splits)
  define x where "x = roundup (min (sg_dma_len (sgl ! j) - ofs) sz) 8"
  have step: "calc_loop sgl (Suc k') (Some j) i ofs sz =
     (if sz - x \<le> 0 then Inr (i, 0)
      else calc_loop sgl k' (sg_next sgl j) (i + 1) 0 (sz - x))"
    unfolding x_def by (rule calc_loop_step [OF j(2)])
  show ?thesis
  proof (cases "sz - x \<le> 0")
    case True
    with r step Suc j show ?thesis by (simp add: x_def)
  next
    case False
    with r step Suc j have rec: "calc_loop sgl k' (sg_next sgl j) (i + 1) 0 (sz - x) = Inr (i', 0)"
      by simp
    have "k' \<noteq> 0"
    proof
      assume "k' = 0"
      with rec False show False by simp
    qed
    with rec False Suc j show ?thesis by (simp add: x_def)
  qed
qed

lemma xfer_lens_step:
  "j < length sgl \<Longrightarrow>
   xfer_lens sgl (Suc k) (Some j) ofs sz =
     (if sz - roundup (min (sg_dma_len (sgl ! j) - ofs) sz) 8 \<le> 0
      then [roundup (min (sg_dma_len (sgl ! j) - ofs) sz) 8]
      else roundup (min (sg_dma_len (sgl ! j) - ofs) sz) 8
             # xfer_lens sgl k (sg_next sgl j) 0
                 (sz - roundup (min (sg_dma_len (sgl ! j) - ofs) sz) 8))"
  by (simp add: Let_def max_def)

lemma init_loop_step:
  "v_sg v = Some j \<Longrightarrow> j < length sgl \<Longrightarrow>
   init_loop c sgl src base (Suc k) v =
     (if v_size v - roundup (min (sg_dma_len (sgl ! j) - v_offset v) (v_size v)) 8 \<le> 0
      then Inr (after_body c sgl src base v j)
      else init_loop c sgl src base k
             ((after_body c sgl src base v j) \<lparr> v_i := v_i v + 1, v_sg := sg_next sgl j \<rparr>))"
  by (simp add: Let_def max_def after_body_def data_desc_def)

lemma init_loop_sim:
  "calc_loop sgl k sg i ofs sz = Inr (i', 0) \<Longrightarrow> 0 < k \<Longrightarrow>
   v_sg v = sg \<Longrightarrow> v_i v = i \<Longrightarrow> v_offset v = ofs \<Longrightarrow> v_size v = sz \<Longrightarrow>
   \<exists>v'. init_loop c sgl src base (Suc (nat (i' - i))) v = Inr v' \<and> i \<le> i' \<and> v_i v' = i'
      \<and> int (length (xfer_lens sgl k sg ofs sz)) = i' - i + 1
      \<and> (\<exists>j'. v_sg v' = Some j' \<and> j' < length sgl)
      \<and> (\<forall>a. (\<forall>m. i \<le> m \<and> m \<le> i' \<longrightarrow> a \<noteq> desc_addr base m) \<longrightarrow> v_mem v' a = v_mem v a)
      \<and> (\<forall>m. i \<le> m \<and> m \<le> i'
              \<and> (\<forall>m'. m < m' \<and> m' \<le> i' \<longrightarrow> desc_addr base m' \<noteq> desc_addr base m) \<longrightarrow>
            ddadr (v_mem v' (desc_addr base m)) = desc_addr base (m + 1)
            \<and> dcmd (v_mem v' (desc_addr base m)) =
                DCMD_FLOWSRC c OR DCMD_BURST8 c OR DCMD_INCTRGADDR c
                  OR word_of_int (xfer_lens sgl k sg ofs sz ! nat (m - i)))"
proof (induction k arbitrary: sg i ofs sz v)
  case 0
  then show ?case by simp
next
  case (Suc k)
  note xfer_lens.simps [simp del] init_loop.simps [simp del] calc_loop.simps [simp del]
  from calc_loop_break [OF Suc.prems(1)] obtain j where
    j: "sg = Some j" "j < length sgl" and
    br: "if sz - roundup (min (sg_dma_len (sgl ! j) - ofs) sz) 8 \<le> 0 then i' = i
         else 1 < Suc k \<and> calc_loop sgl (Suc k - 1) (sg_next sgl j) (i + 1) 0
                (sz - roundup (min (sg_dma_len (sgl ! j) - ofs) sz) 8) = Inr (i', 0)"
    by auto
  define x where "x = roundup (min (sg_dma_len (sgl ! j) - ofs) sz) 8"
  define v1 where "v1 = after_body c sgl src base v j"
  have vsg: "v_sg v = Some j" using Suc.prems(3) j by simp
  have xv: "roundup (min (sg_dma_len (sgl ! j) - v_offset v) (v_size v)) 8 = x"
    using Suc.prems(5,6) by (simp add: x_def)
  note istep = init_loop_step [OF vsg j(2), of c src base, unfolded xv, folded v1_def]
  note lstep = xfer_lens_step [OF j(2), of k ofs sz, folded x_def]
  have v1_mem: "v_mem v1 = (v_mem v) (desc_addr base i := data_desc c sgl src base v j)"
    using Suc.prems(4) by (simp add: v1_def after_body_def)
  have d_ddadr: "ddadr (data_desc c sgl src base v j) = desc_addr base (i + 1)"
    using Suc.prems(4) by (simp add: data_desc_def)
  have d_dcmd: "dcmd (data_desc c sgl src base v j) =
      DCMD_FLOWSRC c OR DCMD_BURST8 c OR DCMD_INCTRGADDR c OR word_of_int x"
    by (simp add: data_desc_def xv)
  show ?case
  proof (cases "sz - x \<le> 0")
    case True
    with br have i': "i' = i" by (simp add: x_def)
    have r: "init_loop c sgl src base (Suc (nat (i' - i))) v = Inr v1"
      unfolding istep using True Suc.prems(6) by simp
    have l: "xfer_lens sgl (Suc k) sg ofs sz = [x]"
      unfolding j(1) lstep using True by simp
    have p1: "v_i v1 = i'" "v_sg v1 = Some j"
      using Suc.prems(4) i' vsg by (simp_all add: v1_def after_body_def)
    have fr: "\<forall>a. (\<forall>m. i \<le> m \<and> m \<le> i' \<longrightarrow> a \<noteq> desc_addr base m) \<longrightarrow> v_mem v1 a = v_mem v a"
      using i' by (simp add: v1_mem)
    have ct: "\<forall>m. i \<le> m \<and> m \<le> i'
              \<and> (\<forall>m'. m < m' \<and> m' \<le> i' \<longrightarrow> desc_addr base m' \<noteq> desc_addr base m) \<longrightarrow>
            ddadr (v_mem v1 (desc_addr base m)) = desc_addr base (m + 1)
            \<and> dcmd (v_mem v1 (desc_addr base m)) =
                DCMD_FLOWSRC c OR DCMD_BURST8 c OR DCMD_INCTRGADDR c
                  OR word_of_int (xfer_lens sgl (Suc k) sg ofs sz ! nat (m - i))"
    proof (intro allI impI)
      fix m
      assume "i \<le> m \<and> m \<le> i'
              \<and> (\<forall>m'. m < m' \<and> m' \<le> i' \<longrightarrow> desc_addr base m' \<noteq> desc_addr base m)"
      with i' have "m = i" by simp
      then show "ddadr (v_mem v1 (desc_addr base m)) = desc_addr base (m + 1)
            \<and> dcmd (v_mem v1 (desc_addr base m)) =
                DCMD_FLOWSRC c OR DCMD_BURST8 c OR DCMD_INCTRGADDR c
                  OR word_of_int (xfer_lens sgl (Suc k) sg ofs sz ! nat (m - i))"
        by (simp add: v1_mem d_ddadr d_dcmd l)
    qed
    show ?thesis
    proof (intro exI [of _ v1] conjI)
      show "init_loop c sgl src base (Suc (nat (i' - i))) v = Inr v1" by (fact r)
      show "i \<le> i'" using i' by simp
      show "v_i v1 = i'" by (fact p1(1))
      show "int (length (xfer_lens sgl (Suc k) sg ofs sz)) = i' - i + 1"
        using i' by (simp add: l)
      show "\<exists>j'. v_sg v1 = Some j' \<and> j' < length sgl"
        using p1(2) j(2) by simp
    qed (fact fr, fact ct)
  next
    case False
    with br have k: "0 < k" and
      rec: "calc_loop sgl k (sg_next sgl j) (i + 1) 0 (sz - x) = Inr (i', 0)"
      by (simp_all add: x_def)
    define v2 where "v2 = v1 \<lparr> v_i := v_i v + 1, v_sg := sg_next sgl j \<rparr>"
    have v2: "v_sg v2 = sg_next sgl j" "v_i v2 = i + 1" "v_offset v2 = 0" "v_size v2 = sz - x"
      "v_mem v2 = v_mem v1"
      using Suc.prems(4,6) False xv by (simp_all add: v2_def v1_def after_body_def)
    from Suc.IH [OF rec k v2(1-4)]
    obtain v' where
      r: "init_loop c sgl src base (Suc (nat (i' - (i + 1)))) v2 = Inr v'" and
      le: "i + 1 \<le> i'" and vi: "v_i v' = i'" and
      len: "int (length (xfer_lens sgl k (sg_next sgl j) 0 (sz - x))) = i' - (i + 1) + 1" and
      sg': "\<exists>j'. v_sg v' = Some j' \<and> j' < length sgl" and
      frame: "\<forall>a. (\<forall>m. i + 1 \<le> m \<and> m \<le> i' \<longrightarrow> a \<noteq> desc_addr base m) \<longrightarrow> v_mem v' a = v_mem v2 a" and
      cont: "\<forall>m. i + 1 \<le> m \<and> m \<le> i'
              \<and> (\<forall>m'. m < m' \<and> m' \<le> i' \<longrightarrow> desc_addr base m' \<noteq> desc_addr base m) \<longrightarrow>
            ddadr (v_mem v' (desc_addr base m)) = desc_addr base (m + 1)
            \<and> dcmd (v_mem v' (desc_addr base m)) =
                DCMD_FLOWSRC c OR DCMD_BURST8 c OR DCMD_INCTRGADDR c
                  OR word_of_int (xfer_lens sgl k (sg_next sgl j) 0 (sz - x) ! nat (m - (i + 1)))"
      by blast
    have l: "xfer_lens sgl (Suc k) sg ofs sz = x # xfer_lens sgl k (sg_next sgl j) 0 (sz - x)"
      unfolding j(1) lstep using False by simp
    have suc: "Suc (nat (i' - i)) = Suc (Suc (nat (i' - (i + 1))))"
      using le by simp
    have r': "init_loop c sgl src base (Suc (nat (i' - i))) v = Inr v'"
      unfolding suc istep using False Suc.prems(6) r by (simp add: v2_def)
    have frame': "\<forall>a. (\<forall>m. i \<le> m \<and> m \<le> i' \<longrightarrow> a \<noteq> desc_addr base m) \<longrightarrow> v_mem v' a = v_mem v a"
    proof (intro allI impI)
      fix a assume a: "\<forall>m. i \<le> m \<and> m \<le> i' \<longrightarrow> a \<noteq> desc_addr base m"
      then have "\<forall>m. i + 1 \<le> m \<and> m \<le> i' \<longrightarrow> a \<noteq> desc_addr base m" by simp
      with frame have "v_mem v' a = v_mem v2 a" by blast
      moreover from a le have "a \<noteq> desc_addr base i" by simp
      ultimately show "v_mem v' a = v_mem v a" by (simp add: v2(5) v1_mem)
    qed
    have cont': "\<forall>m. i \<le> m \<and> m \<le> i'
              \<and> (\<forall>m'. m < m' \<and> m' \<le> i' \<longrightarrow> desc_addr base m' \<noteq> desc_addr base m) \<longrightarrow>
            ddadr (v_mem v' (desc_addr base m)) = desc_addr base (m + 1)
            \<and> dcmd (v_mem v' (desc_addr base m)) =
                DCMD_FLOWSRC c OR DCMD_BURST8 c OR DCMD_INCTRGADDR c
                  OR word_of_int (xfer_lens sgl (Suc k) sg ofs sz ! nat (m - i))"
    proof (intro allI impI)
      fix m
      assume m: "i \<le> m \<and> m \<le> i'
              \<and> (\<forall>m'. m < m' \<and> m' \<le> i' \<longrightarrow> desc_addr base m' \<noteq> desc_addr base m)"
      show "ddadr (v_mem v' (desc_addr base m)) = desc_addr base (m + 1)
            \<and> dcmd (v_mem v' (desc_addr base m)) =
                DCMD_FLOWSRC c OR DCMD_BURST8 c OR DCMD_INCTRGADDR c
                  OR word_of_int (xfer_lens sgl (Suc k) sg ofs sz ! nat (m - i))"
      proof (cases "m = i")
        case True
        from m True have "\<forall>m'. i + 1 \<le> m' \<and> m' \<le> i' \<longrightarrow> desc_addr base i \<noteq> desc_addr base m'"
          by (metis add1_zle_eq)
        with frame have "v_mem v' (desc_addr base i) = v_mem v2 (desc_addr base i)" by blast
        then have "v_mem v' (desc_addr base i) = data_desc c sgl src base v j"
          by (simp add: v2(5) v1_mem)
        with True show ?thesis by (simp add: d_ddadr d_dcmd l)
      next
        case False
        with m have m1: "i + 1 \<le> m" by simp
        then have "nat (m - i) = Suc (nat (m - (i + 1)))" by simp
        with cont m m1 show ?thesis by (simp add: l)
      qed
    qed
    show ?thesis
    proof (intro exI [of _ v'] conjI)
      show "init_loop c sgl src base (Suc (nat (i' - i))) v = Inr v'" by (fact r')
      show "i \<le> i'" using le by simp
      show "v_i v' = i'" by (fact vi)
      show "int (length (xfer_lens sgl (Suc k) sg ofs sz)) = i' - i + 1"
        using len by (simp add: l)
      show "\<exists>j'. v_sg v' = Some j' \<and> j' < length sgl" by (fact sg')
    qed (fact frame', fact cont')
  qed
qed

lemma xfer_lens_sum:
  "calc_loop sgl k sg i ofs sz = Inr (i', 0) \<Longrightarrow> 0 < k \<Longrightarrow> 0 < sz \<Longrightarrow>
   sz \<le> sum_list (xfer_lens sgl k sg ofs sz) \<and> sum_list (xfer_lens sgl k sg ofs sz) \<le> sz + 7"
proof (induction k arbitrary: sg i ofs sz)
  case 0
  then show ?case by simp
next
  case (Suc k)
  note xfer_lens.simps [simp del] calc_loop.simps [simp del]
  from calc_loop_break [OF Suc.prems(1)] obtain j where
    j: "sg = Some j" "j < length sgl" and
    br: "if sz - roundup (min (sg_dma_len (sgl ! j) - ofs) sz) 8 \<le> 0 then i' = i
         else 1 < Suc k \<and> calc_loop sgl (Suc k - 1) (sg_next sgl j) (i + 1) 0
                (sz - roundup (min (sg_dma_len (sgl ! j) - ofs) sz) 8) = Inr (i', 0)"
    by auto
  define x where "x = roundup (min (sg_dma_len (sgl ! j) - ofs) sz) 8"
  note lstep = xfer_lens_step [OF j(2), of k ofs sz, folded x_def]
  show ?case
  proof (cases "sz - x \<le> 0")
    case True
    have l: "xfer_lens sgl (Suc k) sg ofs sz = [x]"
      unfolding j(1) lstep using True by simp
    have "x \<le> sz + 7"
    proof (cases "0 \<le> min (sg_dma_len (sgl ! j) - ofs) sz")
      case True
      from roundup8_le [OF this] show ?thesis by (simp add: x_def)
    next
      case False
      then have "min (sg_dma_len (sgl ! j) - ofs) sz \<le> 0" by linarith
      from roundup8_neg [OF this] Suc.prems(3) show ?thesis by (simp add: x_def)
    qed
    with True show ?thesis by (simp add: l)
  next
    case False
    with br have k: "0 < k" and
      rec: "calc_loop sgl k (sg_next sgl j) (i + 1) 0 (sz - x) = Inr (i', 0)"
      by (simp_all add: x_def)
    from False have pos: "0 < sz - x" by simp
    have l: "xfer_lens sgl (Suc k) sg ofs sz = x # xfer_lens sgl k (sg_next sgl j) 0 (sz - x)"
      unfolding j(1) lstep using False by simp
    from Suc.IH [OF rec k pos] show ?thesis by (simp add: l)
  qed
qed

lemma xfer_lens_nth:
  "calc_loop sgl k (Some j) i ofs sz = Inr (i', 0) \<Longrightarrow> 0 < k \<Longrightarrow>
   m < length (xfer_lens sgl k (Some j) ofs sz) \<Longrightarrow>
   j + m < length sgl \<and>
   xfer_lens sgl k (Some j) ofs sz ! m =
     roundup (min (sg_dma_len (sgl ! (j + m)) - (if m = 0 then ofs else 0))
                  (sz - sum_list (take m (xfer_lens sgl k (Some j) ofs sz)))) 8"
proof (induction k arbitrary: j i ofs sz m)
  case 0
  then show ?case by simp
next
  case (Suc k)
  note xfer_lens.simps [simp del] calc_loop.simps [simp del]
  from calc_loop_break [OF Suc.prems(1)] have
    j: "j < length sgl" and
    br: "if sz - roundup (min (sg_dma_len (sgl ! j) - ofs) sz) 8 \<le> 0 then i' = i
         else 1 < Suc k \<and> calc_loop sgl (Suc k - 1) (sg_next sgl j) (i + 1) 0
                (sz - roundup (min (sg_dma_len (sgl ! j) - ofs) sz) 8) = Inr (i', 0)"
    by auto
  define x where "x = roundup (min (sg_dma_len (sgl ! j) - ofs) sz) 8"
  note lstep = xfer_lens_step [OF j, of k ofs sz, folded x_def]
  show ?case
  proof (cases "sz - x \<le> 0")
    case True
    have l: "xfer_lens sgl (Suc k) (Some j) ofs sz = [x]"
      unfolding lstep using True by simp
    with Suc.prems(3) have "m = 0" by simp
    with j show ?thesis by (simp add: l x_def)
  next
    case False
    with br have k: "0 < k" and
      rec: "calc_loop sgl k (sg_next sgl j) (i + 1) 0 (sz - x) = Inr (i', 0)"
      by (simp_all add: x_def)
    from calc_loop_break [OF rec k] have "sg_next sgl j \<noteq> None" by auto
    then have nx: "sg_next sgl j = Some (Suc j)"
      by (simp add: sg_next_def split: if_splits)
    have l: "xfer_lens sgl (Suc k) (Some j) ofs sz = x # xfer_lens sgl k (Some (Suc j)) 0 (sz - x)"
      unfolding lstep using False nx by simp
    show ?thesis
    proof (cases m)
      case 0
      with j show ?thesis by (simp add: l x_def)
    next
      case (Suc m')
      with Suc.prems(3) have m': "m' < length (xfer_lens sgl k (Some (Suc j)) 0 (sz - x))"
        by (simp add: l)
      from Suc.IH [OF rec [unfolded nx] k m'] Suc show ?thesis
        by (simp add: l algebra_simps)
    qed
  qed
qed

lemma desc_addr_uint:
  assumes "coherent_ok base bytes" and "0 \<le> a" and "(a + 1) * sizeof_pxa_dma_desc \<le> bytes"
  shows "uint (desc_addr base a) = uint base + a * sizeof_pxa_dma_desc"
proof -
  from assms have b: "0 \<le> a * 16" "uint base + a * 16 < 2 ^ 32"
    by (simp_all add: coherent_ok_def sizeof_pxa_dma_desc_def)
  have ub: "0 \<le> uint base" by simp
  from b ub have a32: "a * 16 < 2 ^ 32" by linarith
  have w: "uint (word_of_int (a * 16) :: u32) = a * 16"
    using b(1) a32 by (simp only: uint_word_of_int) simp
  have "uint (desc_addr base a) = (uint base + a * 16) mod 2 ^ 32"
    unfolding desc_addr_def sizeof_pxa_dma_desc_def
    by (simp only: uint_word_ariths w) simp
  also have "\<dots> = uint base + a * 16"
    using b ub by simp
  finally show ?thesis by (simp add: sizeof_pxa_dma_desc_def)
qed

lemma desc_addr_inj:
  assumes "coherent_ok base bytes"
    and "0 \<le> a" "(a + 1) * sizeof_pxa_dma_desc \<le> bytes"
    and "0 \<le> b" "(b + 1) * sizeof_pxa_dma_desc \<le> bytes"
    and "desc_addr base a = desc_addr base b"
  shows "a = b"
proof -
  have ua: "uint (desc_addr base a) = uint base + a * 16"
    using desc_addr_uint [OF assms(1,2,3)] by (simp add: sizeof_pxa_dma_desc_def)
  have ub: "uint (desc_addr base b) = uint base + b * 16"
    using desc_addr_uint [OF assms(1,4,5)] by (simp add: sizeof_pxa_dma_desc_def)
  from ua ub have "uint base + a * 16 = uint base + b * 16"
    by (simp only: assms(6))
  then show ?thesis by simp
qed

lemma desc_addr_not_stop:
  assumes "coherent_ok base bytes" and "stop_unaligned c"
    and "0 \<le> a" "(a + 1) * sizeof_pxa_dma_desc \<le> bytes"
  shows "desc_addr base a \<noteq> DDADR_STOP c"
proof
  assume "desc_addr base a = DDADR_STOP c"
  with desc_addr_uint [OF assms(1,3,4)]
  have "uint (DDADR_STOP c) = uint base + a * sizeof_pxa_dma_desc" by simp
  moreover from assms(1) have "sizeof_pxa_dma_desc dvd uint base" by (simp add: coherent_ok_def)
  ultimately have "sizeof_pxa_dma_desc dvd uint (DDADR_STOP c)" by simp
  with assms(2) show False by (simp add: stop_unaligned_def)
qed

lemma desc_addr_0: "desc_addr base 0 = base"
  by (simp add: desc_addr_def)

lemma calculate_dma_sglen_Inr:
  "calculate_dma_sglen sgl sg nr ofs sz = Inr n \<Longrightarrow>
   calc_loop sgl (nat nr) sg 0 ofs sz = Inr (n - 1, 0)"
  by (auto simp: calculate_dma_sglen_def split: sum.splits if_splits)

lemma calc_loop_ge: "calc_loop sgl k sg i ofs sz = Inr (i', z) \<Longrightarrow> i \<le> i'"
proof (induction k arbitrary: sg i ofs sz)
  case 0
  then show ?case by simp
next
  case (Suc k)
  from Suc.prems obtain j where j: "sg = Some j" "j < length sgl"
    by (auto split: option.splits if_splits)
  show ?case
  proof (cases "sz - roundup (min (sg_dma_len (sgl ! j) - ofs) sz) 8 \<le> 0")
    case True
    with Suc.prems j show ?thesis by (simp add: calc_loop_step del: calc_loop.simps)
  next
    case False
    with Suc.prems j have "calc_loop sgl k (sg_next sgl j) (i + 1) 0
             (sz - roundup (min (sg_dma_len (sgl ! j) - ofs) sz) 8) = Inr (i', z)"
      by (simp add: calc_loop_step del: calc_loop.simps)
    from Suc.IH [OF this] show ?thesis by simp
  qed
qed

text \<open>The descriptor array that a successful walk with a \<^verbatim>\<open>break\<close> leaves.\<close>

lemma pxa_init_dma_channel_built:
  assumes calc: "calc_loop sgl (nat nr) sg_first 0 ofs sz = Inr (n - 1, 0)" and nr: "0 < nat nr"
    and alloc: "alloc ((n + 1) * sizeof_pxa_dma_desc) = Some base"
    and ok: "coherent_ok base ((n + 1) * sizeof_pxa_dma_desc)"
  shows "\<exists>mem' sg' ofs'.
      pxa_init_dma_channel c res_start alloc sgl nr mem buf channel cibr sz sg_first ofs =
        Inr (mem', buf \<lparr> dmas := (dmas buf) (channel :=
               \<lparr> sg_dma = base, sg_cpu = Some base,
                 sg_size = (n + 1) * sizeof_pxa_dma_desc, sglen = n \<rparr>) \<rparr>, sg', ofs')
      \<and> 1 \<le> n
      \<and> int (length (xfer_lens sgl (nat nr) sg_first ofs sz)) = n
      \<and> (\<forall>m. 0 \<le> m \<and> m < n \<longrightarrow>
            ddadr (mem' (desc_addr base m)) = desc_addr base (m + 1)
            \<and> dcmd (mem' (desc_addr base m)) =
                DCMD_FLOWSRC c OR DCMD_BURST8 c OR DCMD_INCTRGADDR c
                  OR word_of_int (xfer_lens sgl (nat nr) sg_first ofs sz ! nat m))
      \<and> ddadr (mem' (desc_addr base n)) = DDADR_STOP c
      \<and> dcmd (mem' (desc_addr base n)) = DCMD_FLOWSRC c OR DCMD_BURST8 c OR DCMD_ENDIRQEN c"
proof -
  define v0 where "v0 = \<lparr> v_i = 0, v_sg = sg_first, v_size = sz, v_offset = ofs,
                          v_dma_len = 0, v_xfer_len = 0, v_mem = mem \<rparr>"
  define src where "src = res_start + word_of_int cibr"
  have v0: "v_sg v0 = sg_first" "v_i v0 = 0" "v_offset v0 = ofs" "v_size v0 = sz"
    by (simp_all add: v0_def)
  from init_loop_sim [OF calc nr v0, of c src base]
  obtain v' where
    r: "init_loop c sgl src base (Suc (nat (n - 1 - 0))) v0 = Inr v'" and
    n1: "0 \<le> n - 1" and
    len: "int (length (xfer_lens sgl (nat nr) sg_first ofs sz)) = n - 1 - 0 + 1" and
    sg': "\<exists>j'. v_sg v' = Some j' \<and> j' < length sgl" and
    cont: "\<forall>m. 0 \<le> m \<and> m \<le> n - 1
              \<and> (\<forall>m'. m < m' \<and> m' \<le> n - 1 \<longrightarrow> desc_addr base m' \<noteq> desc_addr base m) \<longrightarrow>
            ddadr (v_mem v' (desc_addr base m)) = desc_addr base (m + 1)
            \<and> dcmd (v_mem v' (desc_addr base m)) =
                DCMD_FLOWSRC c OR DCMD_BURST8 c OR DCMD_INCTRGADDR c
                  OR word_of_int (xfer_lens sgl (nat nr) sg_first ofs sz ! nat (m - 0))"
    by blast
  from n1 have n: "1 \<le> n" by simp
  then have sn: "Suc (nat (n - 1 - 0)) = nat n" by simp
  have cal: "calculate_dma_sglen sgl sg_first nr ofs sz = Inr n"
    by (simp add: calculate_dma_sglen_def calc)
  define mem' where "mem' = (v_mem v') (desc_addr base n := (v_mem v' (desc_addr base n))
        \<lparr> ddadr := DDADR_STOP c, dcmd := DCMD_FLOWSRC c OR DCMD_BURST8 c OR DCMD_ENDIRQEN c \<rparr>)"
  define buf' where "buf' = buf \<lparr> dmas := (dmas buf) (channel :=
               \<lparr> sg_dma = base, sg_cpu = Some base,
                 sg_size = (n + 1) * sizeof_pxa_dma_desc, sglen = n \<rparr>) \<rparr>"
  from sg' obtain j' where j': "v_sg v' = Some j'" "j' < length sgl" by blast
  have res: "pxa_init_dma_channel c res_start alloc sgl nr mem buf channel cibr sz sg_first ofs =
      (if v_xfer_len v' \<ge> v_dma_len v'
       then Inr (mem', buf', sg_next sgl j', v_xfer_len v' - v_dma_len v')
       else Inr (mem', buf', v_sg v', v_xfer_len v'))"
    using r [unfolded sn] j'
    by (simp add: pxa_init_dma_channel_def cal alloc Let_def v0_def [symmetric] src_def [symmetric]
        mem'_def buf'_def)
  have inj: "\<And>a b. 0 \<le> a \<Longrightarrow> a \<le> n \<Longrightarrow> 0 \<le> b \<Longrightarrow> b \<le> n \<Longrightarrow>
      desc_addr base a = desc_addr base b \<Longrightarrow> a = b"
    by (rule desc_addr_inj [OF ok]) (simp_all add: sizeof_pxa_dma_desc_def)
  have data: "\<forall>m. 0 \<le> m \<and> m < n \<longrightarrow>
            ddadr (mem' (desc_addr base m)) = desc_addr base (m + 1)
            \<and> dcmd (mem' (desc_addr base m)) =
                DCMD_FLOWSRC c OR DCMD_BURST8 c OR DCMD_INCTRGADDR c
                  OR word_of_int (xfer_lens sgl (nat nr) sg_first ofs sz ! nat m)"
  proof (intro allI impI)
    fix m assume m: "0 \<le> m \<and> m < n"
    have ne: "desc_addr base m \<noteq> desc_addr base n"
    proof
      assume e: "desc_addr base m = desc_addr base n"
      from inj [OF _ _ _ _ e] m have "m = n" by simp
      with m show False by simp
    qed
    have "\<forall>m'. m < m' \<and> m' \<le> n - 1 \<longrightarrow> desc_addr base m' \<noteq> desc_addr base m"
    proof (intro allI impI notI)
      fix m'
      assume a: "m < m' \<and> m' \<le> n - 1" and e: "desc_addr base m' = desc_addr base m"
      from inj [OF _ _ _ _ e] a m have "m' = m" by simp
      with a show False by simp
    qed
    with cont m have "ddadr (v_mem v' (desc_addr base m)) = desc_addr base (m + 1)
            \<and> dcmd (v_mem v' (desc_addr base m)) =
                DCMD_FLOWSRC c OR DCMD_BURST8 c OR DCMD_INCTRGADDR c
                  OR word_of_int (xfer_lens sgl (nat nr) sg_first ofs sz ! nat (m - 0))"
      by simp
    with ne show "ddadr (mem' (desc_addr base m)) = desc_addr base (m + 1)
            \<and> dcmd (mem' (desc_addr base m)) =
                DCMD_FLOWSRC c OR DCMD_BURST8 c OR DCMD_INCTRGADDR c
                  OR word_of_int (xfer_lens sgl (nat nr) sg_first ofs sz ! nat m)"
      by (simp add: mem'_def)
  qed
  have last: "ddadr (mem' (desc_addr base n)) = DDADR_STOP c"
    "dcmd (mem' (desc_addr base n)) = DCMD_FLOWSRC c OR DCMD_BURST8 c OR DCMD_ENDIRQEN c"
    by (simp_all add: mem'_def)
  show ?thesis
  proof (cases "v_xfer_len v' \<ge> v_dma_len v'")
    case True
    show ?thesis
      apply (rule exI [of _ mem'], rule exI [of _ "sg_next sgl j'"],
             rule exI [of _ "v_xfer_len v' - v_dma_len v'"])
      using res True n len data last by (simp add: buf'_def)
  next
    case False
    show ?thesis
      apply (rule exI [of _ mem'], rule exI [of _ "v_sg v'"], rule exI [of _ "v_xfer_len v'"])
      using res False n len data last by (simp add: buf'_def)
  qed
qed

lemma calculate_dma_sglen_calc:
  assumes "j < length sgl" and "0 < nr" and "sz \<le> sg_bytes sgl j (nat nr) - ofs"
  shows "\<exists>n. calculate_dma_sglen sgl (Some j) nr ofs sz = Inr n
              \<and> calc_loop sgl (nat nr) (Some j) 0 ofs sz = Inr (n - 1, 0)"
proof -
  from assms(2) have k: "0 < nat nr" by simp
  from calc_loop_covered [OF assms(1) k assms(3), of 0]
  obtain i' where i': "calc_loop sgl (nat nr) (Some j) 0 ofs sz = Inr (i', 0)"
    by blast
  then have "calculate_dma_sglen sgl (Some j) nr ofs sz = Inr (i' + 1)"
    by (simp add: calculate_dma_sglen_def)
  with i' show ?thesis by simp
qed

text \<open>
  When every segment fits a descriptor, so does every transfer length of the walk; and the
  length field of the command word then holds the transfer length.
\<close>

lemma seg_fits_nth:
  "list_all (seg_fits c) sgl \<Longrightarrow> j < length sgl \<Longrightarrow>
   0 \<le> sg_dma_len (sgl ! j) \<and> sg_dma_len (sgl ! j) + 7 \<le> uint (DCMD_LENGTH c)"
  by (simp add: list_all_length seg_fits_def)

lemma xfer_lens_bound:
  assumes segs: "list_all (seg_fits c) sgl"
  shows "0 \<le> ofs \<Longrightarrow> \<forall>j. sg = Some j \<and> j < length sgl \<longrightarrow> ofs \<le> sg_dma_len (sgl ! j) \<Longrightarrow>
    0 \<le> sz \<Longrightarrow> \<forall>x \<in> set (xfer_lens sgl k sg ofs sz). 0 \<le> x \<and> x \<le> uint (DCMD_LENGTH c)"
proof (induction k arbitrary: sg ofs sz)
  case 0
  then show ?case by simp
next
  case (Suc k)
  note xfer_lens.simps [simp del]
  show ?case
  proof (cases sg)
    case None
    then show ?thesis by (simp add: xfer_lens.simps)
  next
    case (Some j)
    show ?thesis
    proof (cases "j < length sgl")
      case False
      with Some show ?thesis by (simp add: xfer_lens.simps)
    next
      case True
      define x where "x = roundup (min (sg_dma_len (sgl ! j) - ofs) sz) 8"
      note lstep = xfer_lens_step [OF True, of k ofs sz, folded x_def]
      from seg_fits_nth [OF segs True]
      have len: "0 \<le> sg_dma_len (sgl ! j)" "sg_dma_len (sgl ! j) + 7 \<le> uint (DCMD_LENGTH c)"
        by simp_all
      from Suc.prems(2) Some True have ofs: "ofs \<le> sg_dma_len (sgl ! j)" by simp
      with Suc.prems(3) have m: "0 \<le> min (sg_dma_len (sgl ! j) - ofs) sz" by simp
      have "min (sg_dma_len (sgl ! j) - ofs) sz \<le> x" unfolding x_def by (rule roundup_ge)
      moreover from roundup8_le [OF m] have "x \<le> min (sg_dma_len (sgl ! j) - ofs) sz + 7"
        by (simp add: x_def)
      ultimately have x: "0 \<le> x" "x \<le> uint (DCMD_LENGTH c)"
        using m len Suc.prems(1) by (simp_all add: min_def split: if_splits)
      show ?thesis
      proof (cases "sz - x \<le> 0")
        case True
        then show ?thesis unfolding Some lstep using x by simp
      next
        case False
        have "\<forall>j'. sg_next sgl j = Some j' \<and> j' < length sgl \<longrightarrow> 0 \<le> sg_dma_len (sgl ! j')"
          using seg_fits_nth [OF segs] by blast
        moreover from False have "0 \<le> sz - x" by simp
        ultimately have "\<forall>y \<in> set (xfer_lens sgl k (sg_next sgl j) 0 (sz - x)).
            0 \<le> y \<and> y \<le> uint (DCMD_LENGTH c)"
          by (intro Suc.IH) simp_all
        with False x show ?thesis unfolding Some lstep by simp
      qed
    qed
  qed
qed

lemma dcmd_length_field:
  assumes "dcmd_layout c" and "0 \<le> x" and "x \<le> uint (DCMD_LENGTH c)"
    and "dcmd d = DCMD_FLOWSRC c OR DCMD_BURST8 c OR DCMD_INCTRGADDR c OR word_of_int x"
  shows "desc_length c d = x"
proof -
  from assms(1) have l: "DCMD_LENGTH c = 0x1fff"
    by (simp add: dcmd_layout_def)
  from assms(1) have f: "(DCMD_FLOWSRC c OR DCMD_BURST8 c OR DCMD_INCTRGADDR c) AND 0x1fff = 0"
    unfolding dcmd_layout_def by (elim conjE) simp
  have m13: "mask 13 = (0x1fff :: u32)" by (simp add: mask_eq_exp_minus_1)
  from assms(3) have x: "x < 2 ^ 13" by (simp add: l)
  with assms(2) have u: "uint (word_of_int x :: u32) = x"
    by (simp add: uint_word_of_int)
  have "((word_of_int x :: u32) AND mask 13 = word_of_int x) = (uint (word_of_int x :: u32) < 2 ^ 13)"
    by (rule mask_eq_iff)
  with x u have w: "(word_of_int x :: u32) AND 0x1fff = word_of_int x"
    unfolding m13 by simp
  have "dcmd d AND DCMD_LENGTH c =
      ((DCMD_FLOWSRC c OR DCMD_BURST8 c OR DCMD_INCTRGADDR c) OR word_of_int x) AND 0x1fff"
    unfolding assms(4) l by (simp only: word_bw_assocs)
  also have "\<dots> = (DCMD_FLOWSRC c OR DCMD_BURST8 c OR DCMD_INCTRGADDR c) AND 0x1fff
        OR word_of_int x AND 0x1fff"
    by (rule word_ao_dist)
  also have "\<dots> = word_of_int x" unfolding f w by simp
  finally show ?thesis by (simp add: desc_length_def u)
qed

lemma seg_fits_in_range:
  assumes "dcmd_layout c" and "list_all (seg_fits c) sgl"
  shows "list_all seg_in_range sgl"
  unfolding list_all_length
proof (intro allI impI)
  fix n assume "n < length sgl"
  from seg_fits_nth [OF assms(2) this]
  have "0 \<le> sg_dma_len (sgl ! n)" "sg_dma_len (sgl ! n) + 7 \<le> uint (DCMD_LENGTH c)" by simp_all
  moreover from assms(1) have "uint (DCMD_LENGTH c) = 8191" by (simp add: dcmd_layout_def)
  ultimately show "seg_in_range (sgl ! n)"
    by (simp add: seg_in_range_def c_int_range_def)
qed

text \<open>
  Claim C1. A request of \<open>sz > 0\<close> bytes, at most \<^verbatim>\<open>INT_MAX - 7\<close>, that the segments from
  the cursor cover; the cursor's offset lies inside its segment, and every segment fits a
  descriptor. Then no value of the walk overflows, the segment walk returns a descriptor
  count \<open>n\<close>, and whenever the allocation of the array succeeds the builder returns a chain
  of \<open>n\<close> data descriptors. The length fields of their command words hold the transfer
  lengths \<open>lens\<close>, which are, for each descriptor,
  \<^verbatim>\<open>roundup(min(segment_remaining, bytes_remaining), 8)\<close>, a multiple of 8, and sum up to at
  least \<open>sz\<close> and at most \<open>sz + 7\<close>.
\<close>

theorem pxa_init_dma_channel_lengths:
  assumes "j < length sgl" and "0 < nr" and "0 < sz" and "sz \<le> sg_bytes sgl j (nat nr) - ofs"
    and "sz \<le> 2 ^ 31 - 8" and "0 \<le> ofs" and "ofs \<le> sg_dma_len (sgl ! j)"
    and "list_all (seg_fits c) sgl" and "dcmd_layout c"
  shows "\<exists>n. calculate_dma_sglen sgl (Some j) nr ofs sz = Inr n \<and>
     walk_in_range sgl (nat nr) (Some j) ofs sz \<and>
     (\<forall>base. alloc ((n + 1) * sizeof_pxa_dma_desc) = Some base \<longrightarrow>
             coherent_ok base ((n + 1) * sizeof_pxa_dma_desc) \<longrightarrow>
       (\<exists>mem' buf' sg' ofs' lens.
          pxa_init_dma_channel c res_start alloc sgl nr mem buf channel cibr sz (Some j) ofs =
            Inr (mem', buf', sg', ofs')
          \<and> sg_dma (dmas buf' channel) = base \<and> sglen (dmas buf' channel) = n
          \<and> int (length lens) = n
          \<and> (\<forall>m < length lens.
                dcmd (mem' (desc_addr base (int m))) =
                  DCMD_FLOWSRC c OR DCMD_BURST8 c OR DCMD_INCTRGADDR c OR word_of_int (lens ! m))
          \<and> (\<forall>m < length lens. desc_length c (mem' (desc_addr base (int m))) = lens ! m)
          \<and> (\<forall>m < length lens.
                j + m < length sgl \<and> 8 dvd lens ! m \<and>
                lens ! m = roundup (min (sg_dma_len (sgl ! (j + m)) - (if m = 0 then ofs else 0))
                                        (sz - sum_list (take m lens))) 8)
          \<and> sz \<le> sum_list lens \<and> sum_list lens \<le> sz + 7))"
proof -
  from calculate_dma_sglen_calc [OF assms(1,2,4)]
  obtain n where cal: "calculate_dma_sglen sgl (Some j) nr ofs sz = Inr n"
    and calc: "calc_loop sgl (nat nr) (Some j) 0 ofs sz = Inr (n - 1, 0)"
    by blast
  from assms(2) have nr: "0 < nat nr" by simp
  define lens where "lens = xfer_lens sgl (nat nr) (Some j) ofs sz"
  have sum: "sz \<le> sum_list lens \<and> sum_list lens \<le> sz + 7"
    unfolding lens_def by (rule xfer_lens_sum [OF calc nr assms(3)])
  have nth: "\<forall>m < length lens.
                j + m < length sgl \<and> 8 dvd lens ! m \<and>
                lens ! m = roundup (min (sg_dma_len (sgl ! (j + m)) - (if m = 0 then ofs else 0))
                                        (sz - sum_list (take m lens))) 8"
  proof (intro allI impI)
    fix m assume m: "m < length lens"
    from xfer_lens_nth [OF calc nr m [unfolded lens_def], folded lens_def]
    have e: "j + m < length sgl \<and>
        lens ! m = roundup (min (sg_dma_len (sgl ! (j + m)) - (if m = 0 then ofs else 0))
                                        (sz - sum_list (take m lens))) 8" .
    then have "8 dvd lens ! m" by (simp add: roundup8_dvd)
    with e show "j + m < length sgl \<and> 8 dvd lens ! m \<and>
                lens ! m = roundup (min (sg_dma_len (sgl ! (j + m)) - (if m = 0 then ofs else 0))
                                        (sz - sum_list (take m lens))) 8"
      by blast
  qed
  have fit: "\<forall>x \<in> set lens. 0 \<le> x \<and> x \<le> uint (DCMD_LENGTH c)"
    unfolding lens_def using assms(3,7)
    by (intro xfer_lens_bound [OF assms(8,6)]) simp_all
  have wr: "walk_in_range sgl (nat nr) (Some j) ofs sz"
    using assms(3,5,7)
    by (intro walk_in_range_ok [OF seg_fits_in_range [OF assms(9,8)] assms(6)])
      (simp_all add: c_int_range_def)
  have "\<forall>base. alloc ((n + 1) * sizeof_pxa_dma_desc) = Some base \<longrightarrow>
             coherent_ok base ((n + 1) * sizeof_pxa_dma_desc) \<longrightarrow>
       (\<exists>mem' buf' sg' ofs' lens.
          pxa_init_dma_channel c res_start alloc sgl nr mem buf channel cibr sz (Some j) ofs =
            Inr (mem', buf', sg', ofs')
          \<and> sg_dma (dmas buf' channel) = base \<and> sglen (dmas buf' channel) = n
          \<and> int (length lens) = n
          \<and> (\<forall>m < length lens.
                dcmd (mem' (desc_addr base (int m))) =
                  DCMD_FLOWSRC c OR DCMD_BURST8 c OR DCMD_INCTRGADDR c OR word_of_int (lens ! m))
          \<and> (\<forall>m < length lens. desc_length c (mem' (desc_addr base (int m))) = lens ! m)
          \<and> (\<forall>m < length lens.
                j + m < length sgl \<and> 8 dvd lens ! m \<and>
                lens ! m = roundup (min (sg_dma_len (sgl ! (j + m)) - (if m = 0 then ofs else 0))
                                        (sz - sum_list (take m lens))) 8)
          \<and> sz \<le> sum_list lens \<and> sum_list lens \<le> sz + 7)"
  proof (intro allI impI)
    fix base
    assume al: "alloc ((n + 1) * sizeof_pxa_dma_desc) = Some base"
      and ok: "coherent_ok base ((n + 1) * sizeof_pxa_dma_desc)"
    from pxa_init_dma_channel_built [where alloc = alloc and base = base and c = c
        and res_start = res_start and mem = mem and buf = buf and channel = channel
        and cibr = cibr, OF calc nr al ok, folded lens_def]
    obtain mem' sg' ofs' where
      r: "pxa_init_dma_channel c res_start alloc sgl nr mem buf channel cibr sz (Some j) ofs =
        Inr (mem', buf \<lparr> dmas := (dmas buf) (channel :=
               \<lparr> sg_dma = base, sg_cpu = Some base,
                 sg_size = (n + 1) * sizeof_pxa_dma_desc, sglen = n \<rparr>) \<rparr>, sg', ofs')" and
      len: "int (length lens) = n" and
      data: "\<forall>m. 0 \<le> m \<and> m < n \<longrightarrow>
            ddadr (mem' (desc_addr base m)) = desc_addr base (m + 1)
            \<and> dcmd (mem' (desc_addr base m)) =
                DCMD_FLOWSRC c OR DCMD_BURST8 c OR DCMD_INCTRGADDR c
                  OR word_of_int (lens ! nat m)"
      by blast
    have dc: "\<forall>m < length lens.
                dcmd (mem' (desc_addr base (int m))) =
                  DCMD_FLOWSRC c OR DCMD_BURST8 c OR DCMD_INCTRGADDR c OR word_of_int (lens ! m)"
    proof (intro allI impI)
      fix m assume "m < length lens"
      with len have "0 \<le> int m \<and> int m < n" by simp
      with data have "dcmd (mem' (desc_addr base (int m))) =
                DCMD_FLOWSRC c OR DCMD_BURST8 c OR DCMD_INCTRGADDR c
                  OR word_of_int (lens ! nat (int m))" by blast
      then show "dcmd (mem' (desc_addr base (int m))) =
                  DCMD_FLOWSRC c OR DCMD_BURST8 c OR DCMD_INCTRGADDR c OR word_of_int (lens ! m)"
        by simp
    qed
    have fl: "\<forall>m < length lens. desc_length c (mem' (desc_addr base (int m))) = lens ! m"
    proof (intro allI impI)
      fix m assume m: "m < length lens"
      then have "lens ! m \<in> set lens" by simp
      with fit have "0 \<le> lens ! m" "lens ! m \<le> uint (DCMD_LENGTH c)" by blast+
      moreover from dc m have "dcmd (mem' (desc_addr base (int m))) =
          DCMD_FLOWSRC c OR DCMD_BURST8 c OR DCMD_INCTRGADDR c OR word_of_int (lens ! m)"
        by blast
      ultimately show "desc_length c (mem' (desc_addr base (int m))) = lens ! m"
        by (intro dcmd_length_field [OF assms(9)])
    qed
    show "\<exists>mem' buf' sg' ofs' lens.
          pxa_init_dma_channel c res_start alloc sgl nr mem buf channel cibr sz (Some j) ofs =
            Inr (mem', buf', sg', ofs')
          \<and> sg_dma (dmas buf' channel) = base \<and> sglen (dmas buf' channel) = n
          \<and> int (length lens) = n
          \<and> (\<forall>m < length lens.
                dcmd (mem' (desc_addr base (int m))) =
                  DCMD_FLOWSRC c OR DCMD_BURST8 c OR DCMD_INCTRGADDR c OR word_of_int (lens ! m))
          \<and> (\<forall>m < length lens. desc_length c (mem' (desc_addr base (int m))) = lens ! m)
          \<and> (\<forall>m < length lens.
                j + m < length sgl \<and> 8 dvd lens ! m \<and>
                lens ! m = roundup (min (sg_dma_len (sgl ! (j + m)) - (if m = 0 then ofs else 0))
                                        (sz - sum_list (take m lens))) 8)
          \<and> sz \<le> sum_list lens \<and> sum_list lens \<le> sz + 7"
    proof (intro exI conjI)
      show "pxa_init_dma_channel c res_start alloc sgl nr mem buf channel cibr sz (Some j) ofs =
        Inr (mem', buf \<lparr> dmas := (dmas buf) (channel :=
               \<lparr> sg_dma = base, sg_cpu = Some base,
                 sg_size = (n + 1) * sizeof_pxa_dma_desc, sglen = n \<rparr>) \<rparr>, sg', ofs')"
        by (rule r)
      show "sg_dma (dmas (buf \<lparr> dmas := (dmas buf) (channel :=
               \<lparr> sg_dma = base, sg_cpu = Some base,
                 sg_size = (n + 1) * sizeof_pxa_dma_desc, sglen = n \<rparr>) \<rparr>) channel) = base"
        by simp
      show "sglen (dmas (buf \<lparr> dmas := (dmas buf) (channel :=
               \<lparr> sg_dma = base, sg_cpu = Some base,
                 sg_size = (n + 1) * sizeof_pxa_dma_desc, sglen = n \<rparr>) \<rparr>) channel) = n"
        by simp
      show "int (length lens) = n" by (rule len)
      show "\<forall>m < length lens.
                dcmd (mem' (desc_addr base (int m))) =
                  DCMD_FLOWSRC c OR DCMD_BURST8 c OR DCMD_INCTRGADDR c OR word_of_int (lens ! m)"
        by (rule dc)
      show "\<forall>m < length lens. desc_length c (mem' (desc_addr base (int m))) = lens ! m"
        by (rule fl)
      show "\<forall>m < length lens.
                j + m < length sgl \<and> 8 dvd lens ! m \<and>
                lens ! m = roundup (min (sg_dma_len (sgl ! (j + m)) - (if m = 0 then ofs else 0))
                                        (sz - sum_list (take m lens))) 8"
        by (rule nth)
      show "sz \<le> sum_list lens" using sum by simp
      show "sum_list lens \<le> sz + 7" using sum by simp
    qed
  qed
  with cal wr show ?thesis by blast
qed

lemma calc0: "calculate_dma_sglen sgl0 (Some 0) 3 0 6001 = Inr 2"
  by code_simp

theorem pxa_init_dma_channel_lengths_witness:
  "(0::nat) < length sgl0 \<and> (0::int) < 3 \<and> (0::int) < 6001
   \<and> 6001 \<le> sg_bytes sgl0 0 (nat 3) - 0
   \<and> (6001::int) \<le> 2 ^ 31 - 8 \<and> (0::int) \<le> 0 \<and> 0 \<le> sg_dma_len (sgl0 ! 0)
   \<and> list_all (seg_fits c0) sgl0 \<and> dcmd_layout c0
   \<and> alloc0 ((2 + 1) * sizeof_pxa_dma_desc) = Some 0x100000
   \<and> coherent_ok 0x100000 ((2 + 1) * sizeof_pxa_dma_desc)
   \<and> walk_in_range sgl0 (nat 3) (Some 0) 0 6001
   \<and> (\<exists>mem' buf' sg' ofs'.
          pxa_init_dma_channel c0 0x50000000 alloc0 sgl0 3 mem0 buf0 0 0x28 6001 (Some 0) 0 =
            Inr (mem', buf', sg', ofs')
          \<and> sg_dma (dmas buf' 0) = 0x100000 \<and> sglen (dmas buf' 0) = 2
          \<and> desc_length c0 (mem' (desc_addr 0x100000 0)) = 4096
          \<and> desc_length c0 (mem' (desc_addr 0x100000 1)) = 1912
          \<and> (6001::int) \<le> 4096 + 1912 \<and> (4096::int) + 1912 \<le> 6001 + 7)"
proof -
  have h1: "(0::nat) < length sgl0" by (simp add: sgl0_def)
  have h2: "(0::int) < 3" by simp
  have h3: "(0::int) < 6001" by simp
  have h4: "6001 \<le> sg_bytes sgl0 0 (nat 3) - 0"
    by (simp add: sgl0_def sg_bytes_def sg_dma_len_def)
  have h5: "(6001::int) \<le> 2 ^ 31 - 8" by simp
  have h6: "(0::int) \<le> 0" by simp
  have h7: "0 \<le> sg_dma_len (sgl0 ! 0)" by (simp add: sgl0_def sg_dma_len_def)
  have h8: "list_all (seg_fits c0) sgl0"
    by (simp add: sgl0_def seg_fits_def sg_dma_len_def c0_def)
  have h9: "dcmd_layout c0" by (simp add: dcmd_layout_def c0_def)
  have a1: "alloc0 ((2 + 1) * sizeof_pxa_dma_desc) = Some 0x100000"
    by (simp add: alloc0_def)
  have a2: "coherent_ok 0x100000 ((2 + 1) * sizeof_pxa_dma_desc)"
    by (simp add: coherent_ok_def sizeof_pxa_dma_desc_def)
  from pxa_init_dma_channel_lengths [OF h1 h2 h3 h4 h5 h6 h7 h8 h9,
      of alloc0 "0x50000000" mem0 buf0 0 "0x28"]
  obtain n where n: "calculate_dma_sglen sgl0 (Some 0) 3 0 6001 = Inr n" and
    wr: "walk_in_range sgl0 (nat 3) (Some 0) 0 6001" and
    r: "\<forall>base. alloc0 ((n + 1) * sizeof_pxa_dma_desc) = Some base \<longrightarrow>
             coherent_ok base ((n + 1) * sizeof_pxa_dma_desc) \<longrightarrow>
       (\<exists>mem' buf' sg' ofs' lens.
          pxa_init_dma_channel c0 0x50000000 alloc0 sgl0 3 mem0 buf0 0 0x28 6001 (Some 0) 0 =
            Inr (mem', buf', sg', ofs')
          \<and> sg_dma (dmas buf' 0) = base \<and> sglen (dmas buf' 0) = n
          \<and> int (length lens) = n
          \<and> (\<forall>m < length lens.
                dcmd (mem' (desc_addr base (int m))) =
                  DCMD_FLOWSRC c0 OR DCMD_BURST8 c0 OR DCMD_INCTRGADDR c0 OR word_of_int (lens ! m))
          \<and> (\<forall>m < length lens. desc_length c0 (mem' (desc_addr base (int m))) = lens ! m)
          \<and> (\<forall>m < length lens.
                0 + m < length sgl0 \<and> 8 dvd lens ! m \<and>
                lens ! m = roundup (min (sg_dma_len (sgl0 ! (0 + m)) - (if m = 0 then 0 else 0))
                                        (6001 - sum_list (take m lens))) 8)
          \<and> 6001 \<le> sum_list lens \<and> sum_list lens \<le> 6001 + 7)"
    by blast
  from n calc0 have n2: "n = 2" by simp
  note r2 = r [unfolded n2, rule_format, OF a1 a2]
  from r2 obtain mem' buf' sg' ofs' and lens :: "int list" where
    all: "pxa_init_dma_channel c0 0x50000000 alloc0 sgl0 3 mem0 buf0 0 0x28 6001 (Some 0) 0 =
            Inr (mem', buf', sg', ofs')
          \<and> sg_dma (dmas buf' 0) = 0x100000 \<and> sglen (dmas buf' 0) = 2
          \<and> int (length lens) = 2
          \<and> (\<forall>m < length lens.
                dcmd (mem' (desc_addr 0x100000 (int m))) =
                  DCMD_FLOWSRC c0 OR DCMD_BURST8 c0 OR DCMD_INCTRGADDR c0 OR word_of_int (lens ! m))
          \<and> (\<forall>m < length lens. desc_length c0 (mem' (desc_addr 0x100000 (int m))) = lens ! m)
          \<and> (\<forall>m < length lens.
                0 + m < length sgl0 \<and> 8 dvd lens ! m \<and>
                lens ! m = roundup (min (sg_dma_len (sgl0 ! (0 + m)) - (if m = 0 then 0 else 0))
                                        (6001 - sum_list (take m lens))) 8)
          \<and> 6001 \<le> sum_list lens \<and> sum_list lens \<le> 6001 + 7"
    by (elim exE) (rule that)
  from all have p: "pxa_init_dma_channel c0 0x50000000 alloc0 sgl0 3 mem0 buf0 0 0x28 6001 (Some 0) 0 =
            Inr (mem', buf', sg', ofs')"
      "sg_dma (dmas buf' 0) = 0x100000" "sglen (dmas buf' 0) = 2"
      "int (length lens) = 2"
    by blast+
  from all have fl: "\<forall>m < length lens. desc_length c0 (mem' (desc_addr 0x100000 (int m))) = lens ! m"
    by blast
  from all have nth: "\<forall>m < length lens.
                0 + m < length sgl0 \<and> 8 dvd lens ! m \<and>
                lens ! m = roundup (min (sg_dma_len (sgl0 ! (0 + m)) - (if m = 0 then 0 else 0))
                                        (6001 - sum_list (take m lens))) 8"
    by blast
  from p(4) have len: "length lens = 2" by simp
  then obtain x y where xy: "lens = [x, y]"
    by (cases lens; cases "tl lens"; cases "tl (tl lens)") auto
  from nth [rule_format, of 0] have x: "x = 4096"
    by (simp add: xy sgl0_def sg_dma_len_def roundup_def)
  from nth [rule_format, of 1] have y: "y = 1912"
    by (simp add: xy x sgl0_def sg_dma_len_def roundup_def signed_divide_int_def)
  from fl [rule_format, of 0] fl [rule_format, of 1]
  have d: "desc_length c0 (mem' (desc_addr 0x100000 0)) = 4096"
    "desc_length c0 (mem' (desc_addr 0x100000 1)) = 1912"
    by (simp_all add: xy x y)
  show ?thesis
  proof (intro conjI)
    show "\<exists>mem' buf' sg' ofs'.
          pxa_init_dma_channel c0 0x50000000 alloc0 sgl0 3 mem0 buf0 0 0x28 6001 (Some 0) 0 =
            Inr (mem', buf', sg', ofs')
          \<and> sg_dma (dmas buf' 0) = 0x100000 \<and> sglen (dmas buf' 0) = 2
          \<and> desc_length c0 (mem' (desc_addr 0x100000 0)) = 4096
          \<and> desc_length c0 (mem' (desc_addr 0x100000 1)) = 1912
          \<and> (6001::int) \<le> 4096 + 1912 \<and> (4096::int) + 1912 \<le> 6001 + 7"
      using p(1-3) d by (intro exI [of _ mem'] exI [of _ buf'] exI [of _ sg'] exI [of _ ofs']) simp
  qed (fact h1 h2 h3 h4 h5 h6 h7 h8 h9 a1 a2 wr)+
qed

subsection \<open>The chain that \<^verbatim>\<open>pxa_init_dma_channel\<close> leaves in memory\<close>

lemma stop_hops_chain:
  assumes links: "\<forall>m. 0 \<le> m \<and> m < n \<longrightarrow> ddadr (mem (desc_addr base m)) = desc_addr base (m + 1)"
    and stop: "ddadr (mem (desc_addr base n)) = DDADR_STOP c"
    and nostop: "\<forall>m. 0 \<le> m \<and> m \<le> n \<longrightarrow> desc_addr base m \<noteq> DDADR_STOP c"
  shows "0 \<le> a \<Longrightarrow> a \<le> n \<Longrightarrow>
     stop_hops c mem fuel (desc_addr base a) =
       (if nat (n - a) < fuel then Some (nat (n - a) + 1) else None)"
proof (induction fuel arbitrary: a)
  case 0
  then show ?case by simp
next
  case (Suc fuel)
  show ?case
  proof (cases "a = n")
    case True
    with stop show ?thesis by simp
  next
    case False
    with Suc.prems have a: "0 \<le> a \<and> a < n" by simp
    with links have l: "ddadr (mem (desc_addr base a)) = desc_addr base (a + 1)" by blast
    from a nostop have ns: "desc_addr base (a + 1) \<noteq> DDADR_STOP c" by simp
    from a have "0 \<le> a + 1" "a + 1 \<le> n" by simp_all
    from Suc.IH [OF this] have ih: "stop_hops c mem fuel (desc_addr base (a + 1)) =
       (if nat (n - (a + 1)) < fuel then Some (nat (n - (a + 1)) + 1) else None)" .
    have e: "nat (n - a) = Suc (nat (n - (a + 1)))" using a by arith
    show ?thesis
      by (simp add: l ns ih e)
  qed
qed

lemma pxa_init_dma_channel_InrD:
  assumes "pxa_init_dma_channel c res_start alloc sgl nr mem buf channel cibr sz sg_first ofs =
      Inr (mem', buf', sg', ofs')"
  shows "\<exists>n base v.
      calculate_dma_sglen sgl sg_first nr ofs sz = Inr n
      \<and> alloc ((n + 1) * sizeof_pxa_dma_desc) = Some base
      \<and> init_loop c sgl (res_start + word_of_int cibr) base (nat n)
            \<lparr> v_i = 0, v_sg = sg_first, v_size = sz, v_offset = ofs,
              v_dma_len = 0, v_xfer_len = 0, v_mem = mem \<rparr> = Inr v
      \<and> mem' = (v_mem v) (desc_addr base n := (v_mem v (desc_addr base n))
            \<lparr> ddadr := DDADR_STOP c,
              dcmd := DCMD_FLOWSRC c OR DCMD_BURST8 c OR DCMD_ENDIRQEN c \<rparr>)
      \<and> buf' = buf \<lparr> dmas := (dmas buf) (channel :=
               \<lparr> sg_dma = base, sg_cpu = Some base,
                 sg_size = (n + 1) * sizeof_pxa_dma_desc, sglen = n \<rparr>) \<rparr>"
  using assms
  by (auto simp: pxa_init_dma_channel_def Let_def split: sum.splits option.splits if_splits)

lemma init_loop_one:
  assumes "init_loop c sgl src base (Suc 0) v = Inr v'"
  shows "\<exists>j. v_mem v' = (v_mem v) (desc_addr base (v_i v) := data_desc c sgl src base v j)"
proof -
  from assms obtain j where j: "v_sg v = Some j" "j < length sgl"
    by (auto split: option.splits if_splits)
  from assms have "v' = after_body c sgl src base v j
      \<or> v' = (after_body c sgl src base v j) \<lparr> v_i := v_i v + 1, v_sg := sg_next sgl j \<rparr>"
    unfolding init_loop_step [OF j] by (simp split: if_splits)
  then have "v_mem v' = (v_mem v) (desc_addr base (v_i v) := data_desc c sgl src base v j)"
    by (auto simp: after_body_def)
  then show ?thesis by blast
qed

text \<open>
  Claim C4. Every chain that \<^verbatim>\<open>pxa_init_dma_channel\<close> builds (in an array that the
  allocator placed properly) consists of \<open>sglen\<close> data descriptors, each linked to the
  next one, followed by the terminating descriptor whose link is the stop marker; an
  engine that starts at the chain head reads the stop marker from the last of the
  \<open>sglen + 1\<close> descriptors, and from none before.
\<close>

theorem pxa_init_dma_channel_chain:
  assumes "pxa_init_dma_channel c res_start alloc sgl nr mem buf channel cibr sz sg_first ofs =
      Inr (mem', buf', sg', ofs')"
    and "coherent_ok (sg_dma (dmas buf' channel)) (sg_size (dmas buf' channel))"
    and "stop_unaligned c"
  shows "1 \<le> sglen (dmas buf' channel)
    \<and> (\<forall>m. 0 \<le> m \<and> m < sglen (dmas buf' channel) \<longrightarrow>
          ddadr (mem' (desc_addr (sg_dma (dmas buf' channel)) m)) =
            desc_addr (sg_dma (dmas buf' channel)) (m + 1))
    \<and> ddadr (mem' (desc_addr (sg_dma (dmas buf' channel)) (sglen (dmas buf' channel)))) =
          DDADR_STOP c
    \<and> (\<forall>fuel. stop_hops c mem' fuel (sg_dma (dmas buf' channel)) =
          (if nat (sglen (dmas buf' channel)) < fuel
           then Some (nat (sglen (dmas buf' channel)) + 1) else None))"
proof -
  from pxa_init_dma_channel_InrD [OF assms(1)] obtain n base v where
    cal: "calculate_dma_sglen sgl sg_first nr ofs sz = Inr n" and
    al: "alloc ((n + 1) * sizeof_pxa_dma_desc) = Some base" and
    lp: "init_loop c sgl (res_start + word_of_int cibr) base (nat n)
            \<lparr> v_i = 0, v_sg = sg_first, v_size = sz, v_offset = ofs,
              v_dma_len = 0, v_xfer_len = 0, v_mem = mem \<rparr> = Inr v" and
    mem': "mem' = (v_mem v) (desc_addr base n := (v_mem v (desc_addr base n))
            \<lparr> ddadr := DDADR_STOP c,
              dcmd := DCMD_FLOWSRC c OR DCMD_BURST8 c OR DCMD_ENDIRQEN c \<rparr>)" and
    buf': "buf' = buf \<lparr> dmas := (dmas buf) (channel :=
               \<lparr> sg_dma = base, sg_cpu = Some base,
                 sg_size = (n + 1) * sizeof_pxa_dma_desc, sglen = n \<rparr>) \<rparr>"
    by blast
  have b: "sg_dma (dmas buf' channel) = base" "sglen (dmas buf' channel) = n"
    "sg_size (dmas buf' channel) = (n + 1) * sizeof_pxa_dma_desc"
    by (simp_all add: buf')
  from assms(2) have ok: "coherent_ok base ((n + 1) * sizeof_pxa_dma_desc)"
    by (simp add: b)
  note calc = calculate_dma_sglen_Inr [OF cal]
  from calc_loop_ge [OF calc] have n: "1 \<le> n" by simp
  have core: "(\<forall>m. 0 \<le> m \<and> m < n \<longrightarrow> ddadr (mem' (desc_addr base m)) = desc_addr base (m + 1))
      \<and> ddadr (mem' (desc_addr base n)) = DDADR_STOP c"
  proof (cases "0 < nat nr")
    case True
    from pxa_init_dma_channel_built [where alloc = alloc and base = base and c = c
        and res_start = res_start and mem = mem and buf = buf and channel = channel
        and cibr = cibr, OF calc True al ok]
    obtain mem'' sg'' ofs'' where
      r: "pxa_init_dma_channel c res_start alloc sgl nr mem buf channel cibr sz sg_first ofs =
        Inr (mem'', buf \<lparr> dmas := (dmas buf) (channel :=
               \<lparr> sg_dma = base, sg_cpu = Some base,
                 sg_size = (n + 1) * sizeof_pxa_dma_desc, sglen = n \<rparr>) \<rparr>, sg'', ofs'')" and
      data: "\<forall>m. 0 \<le> m \<and> m < n \<longrightarrow>
            ddadr (mem'' (desc_addr base m)) = desc_addr base (m + 1)
            \<and> dcmd (mem'' (desc_addr base m)) =
                DCMD_FLOWSRC c OR DCMD_BURST8 c OR DCMD_INCTRGADDR c
                  OR word_of_int (xfer_lens sgl (nat nr) sg_first ofs sz ! nat m)" and
      last: "ddadr (mem'' (desc_addr base n)) = DDADR_STOP c"
      by blast
    from r assms(1) have "mem'' = mem'" by simp
    with data last show ?thesis by blast
  next
    case False
    then have "nat nr = 0" by simp
    with calc have n1: "n = 1" by simp
    from lp n1 have "init_loop c sgl (res_start + word_of_int cibr) base (Suc 0)
            \<lparr> v_i = 0, v_sg = sg_first, v_size = sz, v_offset = ofs,
              v_dma_len = 0, v_xfer_len = 0, v_mem = mem \<rparr> = Inr v"
      by simp
    from init_loop_one [OF this] obtain j where
      vm: "v_mem v = mem (desc_addr base 0 := data_desc c sgl (res_start + word_of_int cibr) base
            \<lparr> v_i = 0, v_sg = sg_first, v_size = sz, v_offset = ofs,
              v_dma_len = 0, v_xfer_len = 0, v_mem = mem \<rparr> j)"
      by auto
    have ne: "desc_addr base 0 \<noteq> desc_addr base 1"
    proof
      assume e: "desc_addr base 0 = desc_addr base 1"
      from desc_addr_inj [OF ok _ _ _ _ e] n1 show False
        by (simp add: sizeof_pxa_dma_desc_def)
    qed
    have "ddadr (mem' (desc_addr base 0)) = desc_addr base 1"
      using ne by (simp add: mem' n1 vm data_desc_def)
    moreover have "ddadr (mem' (desc_addr base 1)) = DDADR_STOP c"
      by (simp add: mem' n1)
    ultimately show ?thesis using n1 by (auto simp: order.order_iff_strict)
  qed
  have nostop: "\<forall>m. 0 \<le> m \<and> m \<le> n \<longrightarrow> desc_addr base m \<noteq> DDADR_STOP c"
  proof (intro allI impI)
    fix m assume "0 \<le> m \<and> m \<le> n"
    then show "desc_addr base m \<noteq> DDADR_STOP c"
      by (intro desc_addr_not_stop [OF ok assms(3)]) (simp_all add: sizeof_pxa_dma_desc_def)
  qed
  have hops: "\<forall>fuel. stop_hops c mem' fuel base =
          (if nat n < fuel then Some (nat n + 1) else None)"
  proof
    fix fuel
    from stop_hops_chain [where a = 0 and fuel = fuel, OF core [THEN conjunct1] core [THEN conjunct2] nostop] n
    show "stop_hops c mem' fuel base = (if nat n < fuel then Some (nat n + 1) else None)"
      by (simp add: desc_addr_0)
  qed
  from n core hops show ?thesis
    unfolding b by blast
qed


lemma calc1: "calc_loop sgl0 (nat 3) (Some 1) 0 0 6000 = Inr (2 - 1, 0)"
  by code_simp

theorem pxa_init_dma_channel_chain_witness:
  "\<exists>mem' buf' sg' ofs'.
     pxa_init_dma_channel c0 0x50000000 alloc0 sgl0 3 mem0 buf0 0 0x28 6000 (Some 1) 0 =
       Inr (mem', buf', sg', ofs')
     \<and> coherent_ok (sg_dma (dmas buf' 0)) (sg_size (dmas buf' 0))
     \<and> stop_unaligned c0
     \<and> sglen (dmas buf' 0) = 2
     \<and> ddadr (mem' (desc_addr (sg_dma (dmas buf' 0)) 0)) = desc_addr (sg_dma (dmas buf' 0)) 1
     \<and> ddadr (mem' (desc_addr (sg_dma (dmas buf' 0)) 2)) = DDADR_STOP c0
     \<and> stop_hops c0 mem' 2 (sg_dma (dmas buf' 0)) = None
     \<and> stop_hops c0 mem' 3 (sg_dma (dmas buf' 0)) = Some 3"
proof -
  have al: "alloc0 ((2 + 1) * sizeof_pxa_dma_desc) = Some 0x100000"
    by (simp add: alloc0_def)
  have ok: "coherent_ok 0x100000 ((2 + 1) * sizeof_pxa_dma_desc)"
    by (simp add: coherent_ok_def sizeof_pxa_dma_desc_def)
  have su: "stop_unaligned c0"
    by (simp add: stop_unaligned_def c0_def sizeof_pxa_dma_desc_def)
  define buf' where "buf' = buf0 \<lparr> dmas := (dmas buf0) (0 :=
               \<lparr> sg_dma = 0x100000, sg_cpu = Some 0x100000,
                 sg_size = (2 + 1) * sizeof_pxa_dma_desc, sglen = 2 \<rparr>) \<rparr>"
  from pxa_init_dma_channel_built [where alloc = alloc0 and base = "0x100000" and c = c0
        and res_start = "0x50000000" and mem = mem0 and buf = buf0 and channel = 0
        and cibr = "0x28" and n = 2, OF calc1 _ al ok]
  obtain mem' sg' ofs' where
    r: "pxa_init_dma_channel c0 0x50000000 alloc0 sgl0 3 mem0 buf0 0 0x28 6000 (Some 1) 0 =
        Inr (mem', buf', sg', ofs')"
    unfolding buf'_def by auto
  have b: "sg_dma (dmas buf' 0) = 0x100000" "sglen (dmas buf' 0) = 2"
    "sg_size (dmas buf' 0) = (2 + 1) * sizeof_pxa_dma_desc"
    by (simp_all add: buf'_def)
  from ok have ok': "coherent_ok (sg_dma (dmas buf' 0)) (sg_size (dmas buf' 0))"
    by (simp add: b)
  from pxa_init_dma_channel_chain [OF r ok' su]
  have c: "(\<forall>m. 0 \<le> m \<and> m < 2 \<longrightarrow>
          ddadr (mem' (desc_addr (sg_dma (dmas buf' 0)) m)) =
            desc_addr (sg_dma (dmas buf' 0)) (m + 1))"
    "ddadr (mem' (desc_addr (sg_dma (dmas buf' 0)) 2)) = DDADR_STOP c0"
    "\<forall>fuel. stop_hops c0 mem' fuel (sg_dma (dmas buf' 0)) =
          (if nat 2 < fuel then Some (nat 2 + 1) else None)"
    unfolding b(2) by blast+
  from c(1) have c1: "ddadr (mem' (desc_addr (sg_dma (dmas buf' 0)) 0)) =
      desc_addr (sg_dma (dmas buf' 0)) 1"
    by force
  from c(3) have c3: "stop_hops c0 mem' 2 (sg_dma (dmas buf' 0)) = None"
    "stop_hops c0 mem' 3 (sg_dma (dmas buf' 0)) = Some 3"
    by simp_all
  from r ok' su b(2) c1 c(2) c3 show ?thesis by blast
qed

text \<open>
  Claim C2, evaluated. The V plane of a 64 by 64 frame: the cursor stands at offset 2048 of
  the second page and 2048 bytes are requested. The only descriptor transfers 2048 bytes,
  exactly what remains of its segment, and a following segment exists; yet the cursor
  returned is the same segment at offset 2048, not the following segment at offset 0. The
  test \<^verbatim>\<open>xfer_len >= dma_len\<close> compares with the whole length of the segment, not with
  what remained of it after the start offset.
\<close>

theorem pxa_init_dma_channel_boundary_cursor:
  "sg_dma_len (sgl0 ! 1) - 2048 = 2048
   \<and> xfer_lens sgl0 (nat 3) (Some 1) 2048 2048 = [2048]
   \<and> sg_next sgl0 1 = Some 2
   \<and> (\<exists>mem' buf'.
        pxa_init_dma_channel c0 0x50000000 alloc0 sgl0 3 mem0 buf0 2 0x38 2048 (Some 1) 2048 =
          Inr (mem', buf', Some 1, 2048))"
proof -
  have r: "roundup 2048 8 = 2048"
    by (simp add: roundup_def signed_divide_int_def)
  have a: "sg_dma_len (sgl0 ! 1) - 2048 = 2048"
    by (simp add: sgl0_def sg_dma_len_def)
  have b: "xfer_lens sgl0 (nat 3) (Some 1) 2048 2048 = [2048]"
    by (simp add: eval_nat_numeral sgl0_def sg_dma_len_def r)
  have c: "sg_next sgl0 1 = Some 2"
    by (simp add: sg_next_def sgl0_def)
  have d: "\<exists>mem' buf'.
        pxa_init_dma_channel c0 0x50000000 alloc0 sgl0 3 mem0 buf0 2 0x38 2048 (Some 1) 2048 =
          Inr (mem', buf', Some 1, 2048)"
    by (simp add: pxa_init_dma_channel_def calculate_dma_sglen_def eval_nat_numeral
        sgl0_def sg_dma_len_def r alloc0_def Let_def)
  from a b c d show ?thesis by blast
qed

subsection \<open>Register sequences of the capture controller\<close>

lemma stop_fold:
  "fold (\<lambda>i t. write_DCSR (dma_chans t i) 0 t) xs s =
     s \<lparr> r_dcsr := (\<lambda>ch. if ch \<in> dma_chans s ` set xs then 0 else r_dcsr s ch),
         mmio := mmio s @ map (\<lambda>i. W_DCSR (dma_chans s i) 0) xs \<rparr>"
proof (induction xs arbitrary: s)
  case Nil
  show ?case by simp
next
  case (Cons x xs)
  define s1 where "s1 = write_DCSR (dma_chans s x) 0 s"
  have "fold (\<lambda>i t. write_DCSR (dma_chans t i) 0 t) (x # xs) s =
      fold (\<lambda>i t. write_DCSR (dma_chans t i) 0 t) xs s1"
    by (simp add: s1_def)
  also have "\<dots> = s1 \<lparr> r_dcsr := (\<lambda>ch. if ch \<in> dma_chans s1 ` set xs then 0 else r_dcsr s1 ch),
         mmio := mmio s1 @ map (\<lambda>i. W_DCSR (dma_chans s1 i) 0) xs \<rparr>"
    by (rule Cons.IH)
  also have "\<dots> = s \<lparr> r_dcsr := (\<lambda>ch. if ch \<in> dma_chans s ` set (x # xs) then 0 else r_dcsr s ch),
         mmio := mmio s @ map (\<lambda>i. W_DCSR (dma_chans s i) 0) (x # xs) \<rparr>"
    by (auto simp: s1_def write_DCSR_def fun_eq_iff)
  finally show ?case .
qed

lemma pxa_dma_stop_channels_eq:
  "pxa_dma_stop_channels s =
     s \<lparr> r_dcsr := (\<lambda>ch. if ch \<in> dma_chans s ` set (chan_range s) then 0 else r_dcsr s ch),
         mmio := mmio s @ map (\<lambda>i. W_DCSR (dma_chans s i) 0) (chan_range s) \<rparr>"
  by (simp add: pxa_dma_stop_channels_def stop_fold)

lemma tail_fold:
  "fold (\<lambda>i t. t (i := None)) xs f = (\<lambda>i. if i \<in> set xs then None else f i)"
  by (induction xs arbitrary: f) (auto simp: fun_eq_iff)

lemma pxa_camera_stop_capture_eq:
  "pxa_camera_stop_capture s =
     s \<lparr> active := None,
         r_cicr0 := r_cicr0 s AND NOT CICR0_ENB,
         r_dcsr := (\<lambda>ch. if ch \<in> dma_chans s ` set (chan_range s) then 0 else r_dcsr s ch),
         mmio := mmio s @ map (\<lambda>i. W_DCSR (dma_chans s i) 0) (chan_range s)
                   @ [W_CICR0 (r_cicr0 s AND NOT CICR0_ENB)] \<rparr>"
  by (simp add: pxa_camera_stop_capture_def pxa_dma_stop_channels_eq write_CICR0_def Let_def)

lemma pxa_camera_start_capture_eq:
  "pxa_camera_start_capture s =
     s \<lparr> r_cicr0 := (r_cicr0 s OR CICR0_ENB) AND NOT CICR0_EOFM,
         r_cifr := r_cifr s OR CIFR_RESET_F,
         mmio := mmio s @ [W_CIFR (r_cifr s OR CIFR_RESET_F),
                           W_CICR0 ((r_cicr0 s OR CICR0_ENB) AND NOT CICR0_EOFM)] \<rparr>"
  by (simp add: pxa_camera_start_capture_def write_CICR0_def write_CIFR_def Let_def)

lemma armed_after_start:
  "((x OR CICR0_ENB) AND NOT CICR0_EOFM) AND CICR0_ENB \<noteq> 0"
  "((x OR CICR0_ENB) AND NOT CICR0_EOFM) AND CICR0_EOFM = 0"
proof -
  have "((x OR CICR0_ENB) AND NOT CICR0_EOFM) AND CICR0_ENB = CICR0_ENB"
    by (rule bit_word_eqI) (auto simp: bit_simps CICR0_ENB_def CICR0_EOFM_def)
  then show "((x OR CICR0_ENB) AND NOT CICR0_EOFM) AND CICR0_ENB \<noteq> 0"
    by (simp add: CICR0_ENB_def)
  show "((x OR CICR0_ENB) AND NOT CICR0_EOFM) AND CICR0_EOFM = 0"
    by (rule bit_word_eqI) (auto simp: bit_simps)
qed

lemma armed_start [simp]: "armed (pxa_camera_start_capture s)"
  by (simp add: armed_def pxa_camera_start_capture_eq armed_after_start)

lemma not_armed_stop [simp]: "\<not> armed (pxa_camera_stop_capture s)"
proof -
  have "(r_cicr0 s AND NOT CICR0_ENB) AND CICR0_ENB = 0"
    by (rule bit_word_eqI) (auto simp: bit_simps)
  then show ?thesis by (simp add: armed_def pxa_camera_stop_capture_eq)
qed

lemma reset_after_start: "(x OR CIFR_RESET_F) AND CIFR_RESET_F \<noteq> 0"
proof -
  have "(x OR CIFR_RESET_F) AND CIFR_RESET_F = CIFR_RESET_F"
    by (rule bit_word_eqI) (auto simp: bit_simps)
  then show ?thesis by (simp add: CIFR_RESET_F_def)
qed

lemma end_or_start:
  "(st :: u32) AND e \<noteq> 0 \<Longrightarrow> st AND (e OR t) \<noteq> 0"
  by (metis bit.conj_disj_distrib or_eq_0_iff)

lemma hd_neq_last: "xs \<noteq> [] \<Longrightarrow> hd xs \<noteq> last xs \<Longrightarrow> \<not> first_is_last xs"
  by (cases xs) (auto simp: first_is_last_def)

lemma write_DCSR_same: "write_DCSR ch (r_dcsr s ch) s = s \<lparr> mmio := mmio s @ [W_DCSR ch (r_dcsr s ch)] \<rparr>"
  by (simp add: write_DCSR_def)

text \<open>
  Claim C10. A DMA interrupt that finds no active buffer only acknowledges the status of
  its channel: the one register write is the write-back of the status just read, and the
  capture queue, the channel tails, the buffers (their states and channel masks), the
  descriptors and the contents of every register are as before.
\<close>

theorem pxa_camera_dma_irq_no_active:
  assumes "active s = None"
  shows "pxa_camera_dma_irq c channel act_dma s =
           s \<lparr> mmio := mmio s @ [W_DCSR channel (r_dcsr s channel)] \<rparr>
         \<and> capture (pxa_camera_dma_irq c channel act_dma s) = capture s
         \<and> sg_tail (pxa_camera_dma_irq c channel act_dma s) = sg_tail s
         \<and> bufs (pxa_camera_dma_irq c channel act_dma s) = bufs s
         \<and> active (pxa_camera_dma_irq c channel act_dma s) = None"
  using assms
  by (simp add: pxa_camera_dma_irq_def write_DCSR_def Let_def)

theorem pxa_camera_dma_irq_no_active_witness:
  "active devn = None
   \<and> r_dcsr devn 5 AND DCSR_BUSERR c0 = 0
   \<and> r_dcsr devn 5 AND DCSR_ENDINTR c0 \<noteq> 0
   \<and> r_cisr devn AND overrun_mask devn \<noteq> 0
   \<and> capture devn = [7, 8]
   \<and> sg_tail devn 1 = Some 0x200110
   \<and> vb_state (bufs devn 7) = VIDEOBUF_ACTIVE \<and> active_dma (bufs devn 7) = 7
   \<and> pxa_camera_dma_irq c0 5 DMA_U devn = devn \<lparr> mmio := [W_DCSR 5 0x80000004] \<rparr>
   \<and> capture (pxa_camera_dma_irq c0 5 DMA_U devn) = [7, 8]
   \<and> sg_tail (pxa_camera_dma_irq c0 5 DMA_U devn) = sg_tail devn
   \<and> bufs (pxa_camera_dma_irq c0 5 DMA_U devn) = bufs devn
   \<and> active (pxa_camera_dma_irq c0 5 DMA_U devn) = None"
proof -
  have h: "active devn = None" by (simp add: devn_def dev1_def dev0_def)
  have st: "r_dcsr devn 5 AND DCSR_BUSERR c0 = 0" "r_dcsr devn 5 AND DCSR_ENDINTR c0 \<noteq> 0"
    "r_cisr devn AND overrun_mask devn \<noteq> 0" "capture devn = [7, 8]"
    "sg_tail devn 1 = Some 0x200110"
    "vb_state (bufs devn 7) = VIDEOBUF_ACTIVE" "active_dma (bufs devn 7) = 7"
    by (simp_all add: devn_def dev1_def dev0_def c0_def overrun_mask_def CISR_IFO_0_def
        CISR_IFO_1_def CISR_IFO_2_def)
  have m: "mmio devn = []" "r_dcsr devn 5 = 0x80000004"
    by (simp_all add: devn_def dev1_def dev0_def)
  note t = pxa_camera_dma_irq_no_active [OF h, of c0 5 DMA_U, unfolded m append_Nil]
  from t have e: "pxa_camera_dma_irq c0 5 DMA_U devn = devn \<lparr> mmio := [W_DCSR 5 0x80000004] \<rparr>"
    "capture (pxa_camera_dma_irq c0 5 DMA_U devn) = capture devn"
    "sg_tail (pxa_camera_dma_irq c0 5 DMA_U devn) = sg_tail devn"
    "bufs (pxa_camera_dma_irq c0 5 DMA_U devn) = bufs devn"
    "active (pxa_camera_dma_irq c0 5 DMA_U devn) = None"
    by blast+
  from e(2) st(4) have c: "capture (pxa_camera_dma_irq c0 5 DMA_U devn) = [7, 8]" by simp
  show ?thesis
    by (intro conjI) (fact h st e(1) c e(3) e(4) e(5))+
qed

text \<open>
  Claim C5. A DMA interrupt that signals the end of a transfer while the camera status
  reports a FIFO overrun, taken while the active buffer (the head of the capture queue) is
  not the last buffer queued: the handler acknowledges, stops every channel and disables
  the interface (\<^verbatim>\<open>pxa_camera_stop_capture\<close>), and at once runs the start sequence
  (\<^verbatim>\<open>pxa_camera_start_capture\<close>); these are all its register writes, in this order. The
  capture queue, the buffers and the channel tails are untouched; no buffer is active
  until the next frame boundary.
\<close>

theorem pxa_camera_dma_irq_overrun:
  assumes "active s = Some b" and "capture s \<noteq> []" and "hd (capture s) = b"
    and "b \<noteq> last (capture s)"
    and "r_dcsr s channel AND DCSR_BUSERR c = 0"
    and "r_dcsr s channel AND DCSR_ENDINTR c \<noteq> 0"
    and "r_cisr s AND overrun_mask s \<noteq> 0"
  shows "pxa_camera_dma_irq c channel act_dma s =
           pxa_camera_start_capture
             (pxa_camera_stop_capture (write_DCSR channel (r_dcsr s channel) s))
         \<and> capture (pxa_camera_dma_irq c channel act_dma s) = capture s
         \<and> bufs (pxa_camera_dma_irq c channel act_dma s) = bufs s
         \<and> sg_tail (pxa_camera_dma_irq c channel act_dma s) = sg_tail s
         \<and> active (pxa_camera_dma_irq c channel act_dma s) = None
         \<and> (\<forall>i \<in> set (chan_range s).
               r_dcsr (pxa_camera_dma_irq c channel act_dma s) (dma_chans s i) = 0)
         \<and> armed (pxa_camera_dma_irq c channel act_dma s)
         \<and> r_cifr (pxa_camera_dma_irq c channel act_dma s) AND CIFR_RESET_F \<noteq> 0
         \<and> mmio (pxa_camera_dma_irq c channel act_dma s) =
             mmio s @ [W_DCSR channel (r_dcsr s channel)]
               @ map (\<lambda>i. W_DCSR (dma_chans s i) 0) (chan_range s)
               @ [W_CICR0 (r_cicr0 s AND NOT CICR0_ENB),
                  W_CIFR (r_cifr s OR CIFR_RESET_F),
                  W_CICR0 (((r_cicr0 s AND NOT CICR0_ENB) OR CICR0_ENB) AND NOT CICR0_EOFM)]"
proof -
  from assms(2-4) have nl: "\<not> first_is_last (capture s)"
    by (simp add: hd_neq_last)
  from assms(6) have es: "r_dcsr s channel AND (DCSR_ENDINTR c OR DCSR_STARTINTR c) \<noteq> 0"
    by (rule end_or_start)
  have eq: "pxa_camera_dma_irq c channel act_dma s =
           pxa_camera_start_capture
             (pxa_camera_stop_capture (write_DCSR channel (r_dcsr s channel) s))"
    using assms(1,5,6,7) nl es
    by (simp add: pxa_camera_dma_irq_def Let_def write_DCSR_same overrun_mask_def)
  show ?thesis
    unfolding eq
    by (simp add: pxa_camera_start_capture_eq pxa_camera_stop_capture_eq write_DCSR_same
        chan_range_def armed_def armed_after_start reset_after_start)
      (simp add: CIFR_RESET_F_def)
qed

theorem pxa_camera_dma_irq_overrun_witness:
  "active dev1 = Some 7 \<and> capture dev1 \<noteq> [] \<and> hd (capture dev1) = 7
   \<and> 7 \<noteq> last (capture dev1)
   \<and> r_dcsr (dev1 \<lparr> r_cisr := 1 \<rparr>) 4 AND DCSR_BUSERR c0 = 0
   \<and> r_dcsr (dev1 \<lparr> r_cisr := 1 \<rparr>) 4 AND DCSR_ENDINTR c0 \<noteq> 0
   \<and> r_cisr (dev1 \<lparr> r_cisr := 1 \<rparr>) AND overrun_mask (dev1 \<lparr> r_cisr := 1 \<rparr>) \<noteq> 0
   \<and> capture (pxa_camera_dma_irq c0 4 DMA_Y (dev1 \<lparr> r_cisr := 1 \<rparr>)) = [7, 8]
   \<and> active (pxa_camera_dma_irq c0 4 DMA_Y (dev1 \<lparr> r_cisr := 1 \<rparr>)) = None
   \<and> armed (pxa_camera_dma_irq c0 4 DMA_Y (dev1 \<lparr> r_cisr := 1 \<rparr>))"
proof -
  have h: "active (dev1 \<lparr> r_cisr := 1 \<rparr>) = Some 7" "capture (dev1 \<lparr> r_cisr := 1 \<rparr>) \<noteq> []"
    "hd (capture (dev1 \<lparr> r_cisr := 1 \<rparr>)) = 7" "7 \<noteq> last (capture (dev1 \<lparr> r_cisr := 1 \<rparr>))"
    "r_dcsr (dev1 \<lparr> r_cisr := 1 \<rparr>) 4 AND DCSR_BUSERR c0 = 0"
    "r_dcsr (dev1 \<lparr> r_cisr := 1 \<rparr>) 4 AND DCSR_ENDINTR c0 \<noteq> 0"
    "r_cisr (dev1 \<lparr> r_cisr := 1 \<rparr>) AND overrun_mask (dev1 \<lparr> r_cisr := 1 \<rparr>) \<noteq> 0"
    by (simp_all add: dev1_def dev0_def c0_def overrun_mask_def CISR_IFO_0_def CISR_IFO_1_def
        CISR_IFO_2_def)
  note t = pxa_camera_dma_irq_overrun [OF h, of DMA_Y]
  from t have c: "capture (pxa_camera_dma_irq c0 4 DMA_Y (dev1 \<lparr> r_cisr := 1 \<rparr>)) =
      capture (dev1 \<lparr> r_cisr := 1 \<rparr>)"
    "active (pxa_camera_dma_irq c0 4 DMA_Y (dev1 \<lparr> r_cisr := 1 \<rparr>)) = None"
    "armed (pxa_camera_dma_irq c0 4 DMA_Y (dev1 \<lparr> r_cisr := 1 \<rparr>))"
    by blast+
  have "capture (dev1 \<lparr> r_cisr := 1 \<rparr>) = [7, 8]"
    by (simp add: dev1_def dev0_def)
  with c h show ?thesis by simp
qed

subsection \<open>Channel completions\<close>

lemma start_capture_fields [simp]:
  "capture (pxa_camera_start_capture s) = capture s"
  "active (pxa_camera_start_capture s) = active s"
  "bufs (pxa_camera_start_capture s) = bufs s"
  "sg_tail (pxa_camera_start_capture s) = sg_tail s"
  "descs (pxa_camera_start_capture s) = descs s"
  "channels (pxa_camera_start_capture s) = channels s"
  "dma_chans (pxa_camera_start_capture s) = dma_chans s"
  "r_dcsr (pxa_camera_start_capture s) = r_dcsr s"
  "r_ddadr (pxa_camera_start_capture s) = r_ddadr s"
  "r_cisr (pxa_camera_start_capture s) = r_cisr s"
  "r_cifr (pxa_camera_start_capture s) = r_cifr s OR CIFR_RESET_F"
  "r_cicr0 (pxa_camera_start_capture s) = (r_cicr0 s OR CICR0_ENB) AND NOT CICR0_EOFM"
  "mmio (pxa_camera_start_capture s) =
     mmio s @ [W_CIFR (r_cifr s OR CIFR_RESET_F),
               W_CICR0 ((r_cicr0 s OR CICR0_ENB) AND NOT CICR0_EOFM)]"
  by (simp_all add: pxa_camera_start_capture_eq)

lemma stop_capture_fields [simp]:
  "capture (pxa_camera_stop_capture s) = capture s"
  "active (pxa_camera_stop_capture s) = None"
  "bufs (pxa_camera_stop_capture s) = bufs s"
  "sg_tail (pxa_camera_stop_capture s) = sg_tail s"
  "descs (pxa_camera_stop_capture s) = descs s"
  "channels (pxa_camera_stop_capture s) = channels s"
  "dma_chans (pxa_camera_stop_capture s) = dma_chans s"
  "r_dcsr (pxa_camera_stop_capture s) ch =
     (if ch \<in> dma_chans s ` set (chan_range s) then 0 else r_dcsr s ch)"
  "r_ddadr (pxa_camera_stop_capture s) = r_ddadr s"
  "r_cisr (pxa_camera_stop_capture s) = r_cisr s"
  "r_cifr (pxa_camera_stop_capture s) = r_cifr s"
  "r_cicr0 (pxa_camera_stop_capture s) = r_cicr0 s AND NOT CICR0_ENB"
  "mmio (pxa_camera_stop_capture s) =
     mmio s @ map (\<lambda>i. W_DCSR (dma_chans s i) 0) (chan_range s)
       @ [W_CICR0 (r_cicr0 s AND NOT CICR0_ENB)]"
  by (simp_all add: pxa_camera_stop_capture_eq)

lemma chan_range_upd [simp]:
  "chan_range (pxa_camera_start_capture s) = chan_range s"
  "chan_range (pxa_camera_stop_capture s) = chan_range s"
  "chan_range (s \<lparr> capture := q \<rparr>) = chan_range s"
  "chan_range (s \<lparr> bufs := bf \<rparr>) = chan_range s"
  "chan_range (s \<lparr> active := ac \<rparr>) = chan_range s"
  "chan_range (s \<lparr> mmio := mm \<rparr>) = chan_range s"
  "chan_range (s \<lparr> sg_tail := tls \<rparr>) = chan_range s"
  "chan_range (s \<lparr> descs := ds \<rparr>) = chan_range s"
  by (simp_all add: chan_range_def)

lemma wakeup_fields [simp]:
  "capture (pxa_camera_wakeup b s) = remove1 b (capture s)"
  "bufs (pxa_camera_wakeup b s) = (bufs s) (b := retired (bufs s b))"
  "active (pxa_camera_wakeup b s) =
     (if remove1 b (capture s) = [] then None else Some (hd (remove1 b (capture s))))"
  "sg_tail (pxa_camera_wakeup b s) i =
     (if remove1 b (capture s) = [] \<and> i \<in> set (chan_range s) then None else sg_tail s i)"
  "descs (pxa_camera_wakeup b s) = descs s"
  "channels (pxa_camera_wakeup b s) = channels s"
  "dma_chans (pxa_camera_wakeup b s) = dma_chans s"
  "r_dcsr (pxa_camera_wakeup b s) ch =
     (if remove1 b (capture s) = [] \<and> ch \<in> dma_chans s ` set (chan_range s) then 0
      else r_dcsr s ch)"
  "r_ddadr (pxa_camera_wakeup b s) = r_ddadr s"
  "r_cisr (pxa_camera_wakeup b s) = r_cisr s"
  "r_cifr (pxa_camera_wakeup b s) = r_cifr s"
  "r_cicr0 (pxa_camera_wakeup b s) =
     (if remove1 b (capture s) = [] then r_cicr0 s AND NOT CICR0_ENB else r_cicr0 s)"
  "mmio (pxa_camera_wakeup b s) =
     (if remove1 b (capture s) = []
      then mmio s @ map (\<lambda>i. W_DCSR (dma_chans s i) 0) (chan_range s)
             @ [W_CICR0 (r_cicr0 s AND NOT CICR0_ENB)]
      else mmio s)"
  by (simp_all add: pxa_camera_wakeup_def Let_def tail_fold retired_def)

lemma chan_range_wakeup [simp]: "chan_range (pxa_camera_wakeup b s) = chan_range s"
  by (simp add: chan_range_def)

lemma check_link_miss_eq:
  "pxa_camera_check_link_miss c s =
     (if active s \<noteq> None \<and> (\<forall>i \<in> set (chan_range s). r_ddadr s (dma_chans s i) = DDADR_STOP c)
      then pxa_camera_start_capture s else s)"
  by (simp add: pxa_camera_check_link_miss_def list_all_iff)

lemma dma_irq_completion:
  assumes "completion c ch s" and "active s = Some b"
  shows "pxa_camera_dma_irq c ch a s =
     (if active_dma (bufs s b) AND NOT a = 0
      then pxa_camera_check_link_miss c (pxa_camera_wakeup b
             (s \<lparr> mmio := mmio s @ [W_DCSR ch (r_dcsr s ch)],
                  bufs := (bufs s) (b := (bufs s b) \<lparr> active_dma := 0 \<rparr>) \<rparr>))
      else s \<lparr> mmio := mmio s @ [W_DCSR ch (r_dcsr s ch)],
               bufs := (bufs s) (b := (bufs s b) \<lparr> active_dma := active_dma (bufs s b) AND NOT a \<rparr>) \<rparr>)"
proof -
  from assms(1) have st: "r_dcsr s ch AND DCSR_BUSERR c = 0" "r_dcsr s ch AND DCSR_ENDINTR c \<noteq> 0"
    and ov: "r_cisr s AND overrun_mask s = 0 \<or> first_is_last (capture s)"
    by (simp_all add: completion_def)
  from st(2) have es: "r_dcsr s ch AND (DCSR_ENDINTR c OR DCSR_STARTINTR c) \<noteq> 0"
    by (rule end_or_start)
  show ?thesis
    using st es ov assms(2)
    by (auto simp: pxa_camera_dma_irq_def Let_def write_DCSR_same overrun_mask_def)
qed

text \<open>
  Claim C6. Whenever a completion empties the channel mask of the active buffer, the
  handler retires the buffer (\<^verbatim>\<open>pxa_camera_wakeup\<close>) and then runs the link-miss check.
  If at that point the descriptor pointer of every channel is the stop marker and the
  capture queue still holds a buffer, the check runs the capture start sequence: the
  interface is armed again with its FIFOs reset, the active buffer is the head of the
  queue, and the queue is the one the retirement left, no buffer removed or added.
\<close>

theorem pxa_camera_dma_irq_link_miss:
  assumes "completion c channel s" and "active s = Some b"
    and "active_dma (bufs s b) AND NOT act_dma = 0"
  shows "pxa_camera_dma_irq c channel act_dma s =
           pxa_camera_check_link_miss c (pxa_camera_wakeup b
             (s \<lparr> mmio := mmio s @ [W_DCSR channel (r_dcsr s channel)],
                  bufs := (bufs s) (b := (bufs s b) \<lparr> active_dma := 0 \<rparr>) \<rparr>))
     \<and> ((\<forall>i \<in> set (chan_range s). r_ddadr s (dma_chans s i) = DDADR_STOP c)
          \<and> remove1 b (capture s) \<noteq> [] \<longrightarrow>
        pxa_camera_dma_irq c channel act_dma s =
           pxa_camera_start_capture (pxa_camera_wakeup b
             (s \<lparr> mmio := mmio s @ [W_DCSR channel (r_dcsr s channel)],
                  bufs := (bufs s) (b := (bufs s b) \<lparr> active_dma := 0 \<rparr>) \<rparr>))
        \<and> capture (pxa_camera_dma_irq c channel act_dma s) = remove1 b (capture s)
        \<and> active (pxa_camera_dma_irq c channel act_dma s) = Some (hd (remove1 b (capture s)))
        \<and> armed (pxa_camera_dma_irq c channel act_dma s)
        \<and> r_cifr (pxa_camera_dma_irq c channel act_dma s) AND CIFR_RESET_F \<noteq> 0
        \<and> mmio (pxa_camera_dma_irq c channel act_dma s) =
             mmio s @ [W_DCSR channel (r_dcsr s channel),
                       W_CIFR (r_cifr s OR CIFR_RESET_F),
                       W_CICR0 ((r_cicr0 s OR CICR0_ENB) AND NOT CICR0_EOFM)])"
proof -
  define s2 where "s2 = s \<lparr> mmio := mmio s @ [W_DCSR channel (r_dcsr s channel)],
                  bufs := (bufs s) (b := (bufs s b) \<lparr> active_dma := 0 \<rparr>) \<rparr>"
  have eq: "pxa_camera_dma_irq c channel act_dma s =
      pxa_camera_check_link_miss c (pxa_camera_wakeup b s2)"
    using dma_irq_completion [OF assms(1,2), of act_dma] assms(3) by (simp add: s2_def)
  have r: "pxa_camera_check_link_miss c (pxa_camera_wakeup b s2) =
      pxa_camera_start_capture (pxa_camera_wakeup b s2)"
    if "\<forall>i \<in> set (chan_range s). r_ddadr s (dma_chans s i) = DDADR_STOP c"
      and "remove1 b (capture s) \<noteq> []"
    using that by (simp add: check_link_miss_eq s2_def)
  have f: "capture s2 = capture s" "mmio s2 = mmio s @ [W_DCSR channel (r_dcsr s channel)]"
    "r_cifr s2 = r_cifr s" "r_cicr0 s2 = r_cicr0 s"
    by (simp_all add: s2_def)
  have rs: "(r_cifr s OR CIFR_RESET_F) AND CIFR_RESET_F \<noteq> 0"
    by (rule reset_after_start)
  show ?thesis
    unfolding s2_def [symmetric]
  proof (intro conjI impI)
    show "pxa_camera_dma_irq c channel act_dma s =
        pxa_camera_check_link_miss c (pxa_camera_wakeup b s2)"
      by (rule eq)
  next
    assume a: "(\<forall>i \<in> set (chan_range s). r_ddadr s (dma_chans s i) = DDADR_STOP c)
          \<and> remove1 b (capture s) \<noteq> []"
    then have ne: "remove1 b (capture s) \<noteq> []" by simp
    from a have e: "pxa_camera_dma_irq c channel act_dma s =
        pxa_camera_start_capture (pxa_camera_wakeup b s2)"
      by (simp add: eq r)
    show "pxa_camera_dma_irq c channel act_dma s =
        pxa_camera_start_capture (pxa_camera_wakeup b s2)"
      by (rule e)
    show "capture (pxa_camera_dma_irq c channel act_dma s) = remove1 b (capture s)"
      unfolding e by (simp add: f)
    show "active (pxa_camera_dma_irq c channel act_dma s) = Some (hd (remove1 b (capture s)))"
      unfolding e using ne by (simp add: f)
    show "armed (pxa_camera_dma_irq c channel act_dma s)"
      unfolding e by simp
    show "r_cifr (pxa_camera_dma_irq c channel act_dma s) AND CIFR_RESET_F \<noteq> 0"
      unfolding e using rs by (simp add: f)
    show "mmio (pxa_camera_dma_irq c channel act_dma s) =
             mmio s @ [W_DCSR channel (r_dcsr s channel),
                       W_CIFR (r_cifr s OR CIFR_RESET_F),
                       W_CICR0 ((r_cicr0 s OR CICR0_ENB) AND NOT CICR0_EOFM)]"
      unfolding e using ne by (simp add: f)
  qed
qed

theorem pxa_camera_dma_irq_link_miss_witness:
  "completion c0 6 dev2 \<and> active dev2 = Some 7
   \<and> active_dma (bufs dev2 7) AND NOT DMA_V = 0
   \<and> list_all (\<lambda>i. r_ddadr dev2 (dma_chans dev2 i) = DDADR_STOP c0) (chan_range dev2)
   \<and> remove1 7 (capture dev2) \<noteq> []
   \<and> capture (pxa_camera_dma_irq c0 6 DMA_V dev2) = [8]
   \<and> active (pxa_camera_dma_irq c0 6 DMA_V dev2) = Some 8
   \<and> armed (pxa_camera_dma_irq c0 6 DMA_V dev2)"
proof -
  have h1: "completion c0 6 dev2"
    by (simp add: completion_def dev2_def dev1_def dev0_def c0_def)
  have h2: "active dev2 = Some 7"
    by (simp add: dev2_def dev1_def dev0_def)
  have h3: "active_dma (bufs dev2 7) AND NOT DMA_V = 0"
    by (simp add: dev2_def dev1_def dev0_def DMA_V_def)
  have h4: "(\<forall>i \<in> set (chan_range dev2). r_ddadr dev2 (dma_chans dev2 i) = DDADR_STOP c0)
      \<and> remove1 7 (capture dev2) \<noteq> []"
    by (simp add: dev2_def dev1_def dev0_def c0_def)
  have q: "remove1 7 (capture dev2) = [8]"
    by (simp add: dev2_def dev1_def dev0_def)
  from pxa_camera_dma_irq_link_miss [OF h1 h2 h3] h4
  have "capture (pxa_camera_dma_irq c0 6 DMA_V dev2) = remove1 7 (capture dev2)"
    "active (pxa_camera_dma_irq c0 6 DMA_V dev2) = Some (hd (remove1 7 (capture dev2)))"
    "armed (pxa_camera_dma_irq c0 6 DMA_V dev2)"
    by blast+
  with h1 h2 h3 h4 q show ?thesis by (simp add: list_all_iff)
qed

lemma hw_step_fields:
  assumes "hw_step c s t"
  shows "capture t = capture s" "active t = active s" "bufs t = bufs s"
    "channels t = channels s" "sg_tail t = sg_tail s" "dma_chans t = dma_chans s"
    "r_cicr0 t = r_cicr0 s" "descs t = descs s"
  using assms by (auto simp: hw_step_def)

lemma hw_step_refl: "hw_step c s s"
proof -
  have "s = s \<lparr> r_cisr := r_cisr s, r_dcsr := r_dcsr s, r_ddadr := r_ddadr s \<rparr>" by simp
  then show ?thesis unfolding hw_step_def by blast
qed

text \<open>A completion that leaves bits in the channel mask changes nothing else but the mask.\<close>

lemma completion_pending:
  assumes "completion c ch s" and "active s = Some b"
    and "active_dma (bufs s b) AND NOT a \<noteq> 0"
  shows "active (pxa_camera_dma_irq c ch a s) = Some b"
    "capture (pxa_camera_dma_irq c ch a s) = capture s"
    "channels (pxa_camera_dma_irq c ch a s) = channels s"
    "bufs (pxa_camera_dma_irq c ch a s) =
       (bufs s) (b := (bufs s b) \<lparr> active_dma := active_dma (bufs s b) AND NOT a \<rparr>)"
  using assms(2,3) by (simp_all add: dma_irq_completion [OF assms(1,2)])

lemma check_link_miss_fields [simp]:
  "capture (pxa_camera_check_link_miss c s) = capture s"
  "bufs (pxa_camera_check_link_miss c s) = bufs s"
  "active (pxa_camera_check_link_miss c s) = active s"
  "sg_tail (pxa_camera_check_link_miss c s) = sg_tail s"
  "channels (pxa_camera_check_link_miss c s) = channels s"
  "dma_chans (pxa_camera_check_link_miss c s) = dma_chans s"
  "r_dcsr (pxa_camera_check_link_miss c s) = r_dcsr s"
  "descs (pxa_camera_check_link_miss c s) = descs s"
  by (simp_all add: check_link_miss_eq)

text \<open>The completion that empties the mask retires the buffer.\<close>

lemma completion_final:
  assumes "completion c ch s" and "active s = Some b"
    and "active_dma (bufs s b) AND NOT a = 0"
  shows "capture (pxa_camera_dma_irq c ch a s) = remove1 b (capture s)"
    "bufs (pxa_camera_dma_irq c ch a s) b = retired ((bufs s b) \<lparr> active_dma := 0 \<rparr>)"
  using assms(2,3) by (simp_all add: dma_irq_completion [OF assms(1,2)])

lemma masks:
  "(DMA_Y OR (DMA_U OR DMA_V)) AND NOT DMA_Y = DMA_U OR DMA_V"
  "(DMA_Y OR (DMA_U OR DMA_V)) AND NOT DMA_U = DMA_Y OR DMA_V"
  "(DMA_Y OR (DMA_U OR DMA_V)) AND NOT DMA_V = DMA_Y OR DMA_U"
  "(DMA_U OR DMA_V) AND NOT DMA_U = DMA_V" "(DMA_U OR DMA_V) AND NOT DMA_V = DMA_U"
  "(DMA_Y OR DMA_V) AND NOT DMA_Y = DMA_V" "(DMA_Y OR DMA_V) AND NOT DMA_V = DMA_Y"
  "(DMA_Y OR DMA_U) AND NOT DMA_Y = DMA_U" "(DMA_Y OR DMA_U) AND NOT DMA_U = DMA_Y"
  "DMA_Y AND NOT DMA_Y = 0" "DMA_U AND NOT DMA_U = 0" "DMA_V AND NOT DMA_V = 0"
  "DMA_Y \<noteq> 0" "DMA_U \<noteq> 0" "DMA_V \<noteq> 0"
  "DMA_U OR DMA_V \<noteq> 0" "DMA_Y OR DMA_V \<noteq> 0" "DMA_Y OR DMA_U \<noteq> 0"
  by (simp_all add: DMA_Y_def DMA_U_def DMA_V_def)

lemma three_completions:
  assumes act: "active s = Some b"
    and m1: "active_dma (bufs s b) AND NOT a1 \<noteq> 0"
    and m2: "(active_dma (bufs s b) AND NOT a1) AND NOT a2 \<noteq> 0"
    and m3: "((active_dma (bufs s b) AND NOT a1) AND NOT a2) AND NOT a3 = 0"
    and c1: "completion c ch1 s" and s1: "s1 = pxa_camera_dma_irq c ch1 a1 s"
    and h1: "hw_step c s1 t1" and c2: "completion c ch2 t1"
    and s2: "s2 = pxa_camera_dma_irq c ch2 a2 t1"
    and h2: "hw_step c s2 t2" and c3: "completion c ch3 t2"
    and s3: "s3 = pxa_camera_dma_irq c ch3 a3 t2"
  shows "(vb_state (bufs s1 b) = vb_state (bufs s b) \<and> vb_done (bufs s1 b) = vb_done (bufs s b)
          \<and> capture s1 = capture s \<and> active s1 = Some b \<and> active_dma (bufs s1 b) \<noteq> 0)
       \<and> (vb_state (bufs s2 b) = vb_state (bufs s b) \<and> vb_done (bufs s2 b) = vb_done (bufs s b)
          \<and> capture s2 = capture s \<and> active s2 = Some b \<and> active_dma (bufs s2 b) \<noteq> 0)
       \<and> (vb_state (bufs s3 b) = VIDEOBUF_DONE \<and> vb_done (bufs s3 b) = vb_done (bufs s b) + 1
          \<and> capture s3 = remove1 b (capture s) \<and> active_dma (bufs s3 b) = 0)"
proof -
  note p1 = completion_pending [OF c1 act m1, folded s1]
  have b1: "bufs t1 b = (bufs s b) \<lparr> active_dma := active_dma (bufs s b) AND NOT a1 \<rparr>"
    and act1: "active t1 = Some b" and cap1: "capture t1 = capture s"
    using hw_step_fields [OF h1] p1 by simp_all
  from m2 b1 have m2': "active_dma (bufs t1 b) AND NOT a2 \<noteq> 0" by simp
  note p2 = completion_pending [OF c2 act1 m2', folded s2]
  have b2: "bufs t2 b = (bufs s b)
        \<lparr> active_dma := (active_dma (bufs s b) AND NOT a1) AND NOT a2 \<rparr>"
    and act2: "active t2 = Some b" and cap2: "capture t2 = capture s"
    using hw_step_fields [OF h2] p2 b1 cap1 by simp_all
  from m3 b2 have m3': "active_dma (bufs t2 b) AND NOT a3 = 0" by simp
  note p3 = completion_final [OF c3 act2 m3', folded s3]
  have r1: "vb_state (bufs s1 b) = vb_state (bufs s b) \<and> vb_done (bufs s1 b) = vb_done (bufs s b)
          \<and> capture s1 = capture s \<and> active s1 = Some b \<and> active_dma (bufs s1 b) \<noteq> 0"
    using p1 m1 by simp
  have r2: "vb_state (bufs s2 b) = vb_state (bufs s b) \<and> vb_done (bufs s2 b) = vb_done (bufs s b)
          \<and> capture s2 = capture s \<and> active s2 = Some b \<and> active_dma (bufs s2 b) \<noteq> 0"
    using p2 m2' b1 cap1 by simp
  have r3: "vb_state (bufs s3 b) = VIDEOBUF_DONE \<and> vb_done (bufs s3 b) = vb_done (bufs s b) + 1
          \<and> capture s3 = remove1 b (capture s) \<and> active_dma (bufs s3 b) = 0"
    using p3 b2 cap2 by (simp add: retired_def)
  from r1 r2 r3 show ?thesis by blast
qed

lemma perm3:
  assumes "set [a1, a2, a3] = {DMA_Y, DMA_U, DMA_V}" and "distinct [a1, a2, a3]"
  shows "(a1 = DMA_Y \<and> a2 = DMA_U \<and> a3 = DMA_V) \<or> (a1 = DMA_Y \<and> a2 = DMA_V \<and> a3 = DMA_U)
     \<or> (a1 = DMA_U \<and> a2 = DMA_Y \<and> a3 = DMA_V) \<or> (a1 = DMA_U \<and> a2 = DMA_V \<and> a3 = DMA_Y)
     \<or> (a1 = DMA_V \<and> a2 = DMA_Y \<and> a3 = DMA_U) \<or> (a1 = DMA_V \<and> a2 = DMA_U \<and> a3 = DMA_Y)"
proof -
  have i1: "a1 = DMA_Y \<or> a1 = DMA_U \<or> a1 = DMA_V"
  proof -
    have "a1 \<in> set [a1, a2, a3]" by simp
    then show ?thesis unfolding assms(1) by simp
  qed
  have i2: "a2 = DMA_Y \<or> a2 = DMA_U \<or> a2 = DMA_V"
  proof -
    have "a2 \<in> set [a1, a2, a3]" by simp
    then show ?thesis unfolding assms(1) by simp
  qed
  have i3: "a3 = DMA_Y \<or> a3 = DMA_U \<or> a3 = DMA_V"
  proof -
    have "a3 \<in> set [a1, a2, a3]" by simp
    then show ?thesis unfolding assms(1) by simp
  qed
  from assms(2) have d: "a1 \<noteq> a2" "a1 \<noteq> a3" "a2 \<noteq> a3" by simp_all
  from i1 i2 i3 d show ?thesis by blast
qed

text \<open>
  Claim C7. A buffer of a three-channel device is active with the bits Y, U and V in its
  mask. The three completions arrive in any of the six orders \<open>a1, a2, a3\<close>, on any DMA
  channels, and the hardware may change its registers in between. After the first and
  after the second completion the buffer is not done: its state and its wake-up count
  are as before, it is still active and queued, and its mask is not empty. The third
  completion clears the last bit, and with it the buffer is dequeued, marked
  \<^verbatim>\<open>VIDEOBUF_DONE\<close> and its waiter woken once.
\<close>

theorem three_channel_done:
  assumes "channels s = 3" and "active s = Some b"
    and "active_dma (bufs s b) = DMA_Y OR (DMA_U OR DMA_V)"
    and "vb_state (bufs s b) \<noteq> VIDEOBUF_DONE"
    and "set [a1, a2, a3] = {DMA_Y, DMA_U, DMA_V}" and "distinct [a1, a2, a3]"
    and "completion c ch1 s" and "s1 = pxa_camera_dma_irq c ch1 a1 s"
    and "hw_step c s1 t1" and "completion c ch2 t1"
    and "s2 = pxa_camera_dma_irq c ch2 a2 t1"
    and "hw_step c s2 t2" and "completion c ch3 t2"
    and "s3 = pxa_camera_dma_irq c ch3 a3 t2"
  shows "(vb_state (bufs s1 b) \<noteq> VIDEOBUF_DONE \<and> vb_done (bufs s1 b) = vb_done (bufs s b)
          \<and> capture s1 = capture s \<and> active s1 = Some b \<and> active_dma (bufs s1 b) \<noteq> 0)
       \<and> (vb_state (bufs s2 b) \<noteq> VIDEOBUF_DONE \<and> vb_done (bufs s2 b) = vb_done (bufs s b)
          \<and> capture s2 = capture s \<and> active s2 = Some b \<and> active_dma (bufs s2 b) \<noteq> 0)
       \<and> (vb_state (bufs s3 b) = VIDEOBUF_DONE \<and> vb_done (bufs s3 b) = vb_done (bufs s b) + 1
          \<and> capture s3 = remove1 b (capture s) \<and> active_dma (bufs s3 b) = 0)"
proof -
  note perm = perm3 [OF assms(5,6)]
  have m: "active_dma (bufs s b) AND NOT a1 \<noteq> 0
      \<and> (active_dma (bufs s b) AND NOT a1) AND NOT a2 \<noteq> 0
      \<and> ((active_dma (bufs s b) AND NOT a1) AND NOT a2) AND NOT a3 = 0"
    using perm by (elim disjE conjE) (simp_all add: assms(3) masks)
  from three_completions [OF assms(2) m [THEN conjunct1] m [THEN conjunct2, THEN conjunct1]
      m [THEN conjunct2, THEN conjunct2] assms(7-14)] assms(4)
  show ?thesis by simp
qed

theorem three_channel_done_witness:
  "channels dev1 = 3 \<and> active dev1 = Some 7
   \<and> active_dma (bufs dev1 7) = DMA_Y OR (DMA_U OR DMA_V)
   \<and> vb_state (bufs dev1 7) \<noteq> VIDEOBUF_DONE
   \<and> set [DMA_V, DMA_Y, DMA_U] = {DMA_Y, DMA_U, DMA_V} \<and> distinct [DMA_V, DMA_Y, DMA_U]
   \<and> completion c0 6 dev1 \<and> hw_step c0 dev1_v dev1_v
   \<and> completion c0 4 dev1_v \<and> hw_step c0 dev1_vy dev1_vy
   \<and> completion c0 5 dev1_vy
   \<and> vb_state (bufs dev1_v 7) \<noteq> VIDEOBUF_DONE \<and> capture dev1_v = [7, 8]
   \<and> vb_state (bufs dev1_vy 7) \<noteq> VIDEOBUF_DONE \<and> capture dev1_vy = [7, 8]
   \<and> vb_state (bufs dev1_vyu 7) = VIDEOBUF_DONE \<and> capture dev1_vyu = [8]
   \<and> vb_done (bufs dev1_vyu 7) = 1"
proof -
  have h1: "channels dev1 = 3" and h2: "active dev1 = Some 7"
    and h3: "active_dma (bufs dev1 7) = DMA_Y OR (DMA_U OR DMA_V)"
    and h4: "vb_state (bufs dev1 7) \<noteq> VIDEOBUF_DONE"
    by (simp_all add: dev1_def dev0_def buf0_def DMA_Y_def DMA_U_def DMA_V_def)
  have h5: "set [DMA_V, DMA_Y, DMA_U] = {DMA_Y, DMA_U, DMA_V}" by auto
  have h6: "distinct [DMA_V, DMA_Y, DMA_U]"
    by (simp add: DMA_Y_def DMA_U_def DMA_V_def)
  have c1: "completion c0 6 dev1"
    by (simp add: completion_def dev1_def dev0_def c0_def)
  have m1: "active_dma (bufs dev1 7) AND NOT DMA_V \<noteq> 0"
    by (simp add: h3 masks)
  have e1: "dev1_v = dev1 \<lparr> mmio := mmio dev1 @ [W_DCSR 6 (r_dcsr dev1 6)],
        bufs := (bufs dev1) (7 := (bufs dev1 7)
          \<lparr> active_dma := active_dma (bufs dev1 7) AND NOT DMA_V \<rparr>) \<rparr>"
    unfolding dev1_v_def using m1 by (simp add: dma_irq_completion [OF c1 h2])
  have c2: "completion c0 4 dev1_v"
    unfolding e1 by (simp add: completion_def dev1_def dev0_def c0_def overrun_mask_def)
  have a2: "active dev1_v = Some 7"
    unfolding e1 by (simp add: h2)
  have m2: "active_dma (bufs dev1_v 7) AND NOT DMA_Y \<noteq> 0"
    unfolding e1 by (simp add: h3 masks)
  have e2: "dev1_vy = dev1_v \<lparr> mmio := mmio dev1_v @ [W_DCSR 4 (r_dcsr dev1_v 4)],
        bufs := (bufs dev1_v) (7 := (bufs dev1_v 7)
          \<lparr> active_dma := active_dma (bufs dev1_v 7) AND NOT DMA_Y \<rparr>) \<rparr>"
    unfolding dev1_vy_def using m2 by (simp add: dma_irq_completion [OF c2 a2])
  have c3: "completion c0 5 dev1_vy"
    unfolding e2 e1 by (simp add: completion_def dev1_def dev0_def c0_def overrun_mask_def)
  note t = three_channel_done [OF h1 h2 h3 h4 h5 h6 c1 dev1_v_def hw_step_refl c2 dev1_vy_def
      hw_step_refl c3 dev1_vyu_def]
  have q: "capture dev1 = [7, 8]" "remove1 7 (capture dev1) = [8]" "vb_done (bufs dev1 7) = 0"
    by (simp_all add: dev1_def dev0_def buf0_def)
  from t have "vb_state (bufs dev1_v 7) \<noteq> VIDEOBUF_DONE \<and> capture dev1_v = capture dev1
   \<and> vb_state (bufs dev1_vy 7) \<noteq> VIDEOBUF_DONE \<and> capture dev1_vy = capture dev1
   \<and> vb_state (bufs dev1_vyu 7) = VIDEOBUF_DONE \<and> capture dev1_vyu = remove1 7 (capture dev1)
   \<and> vb_done (bufs dev1_vyu 7) = vb_done (bufs dev1 7) + 1"
    by blast
  with q h1 h2 h3 h4 h5 h6 c1 c2 c3 hw_step_refl [of c0 dev1_v] hw_step_refl [of c0 dev1_vy]
  show ?thesis by simp
qed

subsection \<open>The capture queue while channels run\<close>

lemma for_each_invariant:
  assumes step: "\<And>x s s'. f x s = Inr s' \<Longrightarrow> P s \<Longrightarrow> P s'"
  shows "for_each f xs s = Inr s' \<Longrightarrow> P s \<Longrightarrow> P s'"
proof (induction xs arbitrary: s)
  case Nil
  then show ?case by simp
next
  case (Cons x xs)
  from Cons.prems(1) obtain s1 where s1: "f x s = Inr s1" "for_each f xs s1 = Inr s'"
    by (auto split: sum.splits)
  from step [OF s1(1) Cons.prems(2)] have "P s1" .
  from Cons.IH [OF s1(2) this] show ?case .
qed

lemma add_tail_buf_capture:
  assumes "pxa_dma_add_tail_buf c b s = Inr s'"
  shows "capture s' = capture s"
proof -
  have "capture s' = capture s"
  proof (rule for_each_invariant [where P = "\<lambda>t. capture t = capture s" and f = "add_tail_chan c b"])
    show "for_each (add_tail_chan c b) (chan_range s) s = Inr s'"
      using assms by (simp add: pxa_dma_add_tail_buf_def)
    show "capture s = capture s" by simp
  next
    fix x t t'
    assume "add_tail_chan c b x t = Inr t'" "capture t = capture s"
    then show "capture t' = capture s"
      by (auto simp: add_tail_chan_def Let_def split: option.splits)
  qed
  then show ?thesis .
qed

lemma videobuf_queue_capture:
  assumes "pxa_videobuf_queue c b s = Inr s'"
  shows "capture s' = capture s @ [b]"
proof -
  from assms obtain s3 where
    a: "pxa_dma_add_tail_buf c b
          (s \<lparr> capture := capture s @ [b],
               bufs := (bufs s) (b := (bufs s b) \<lparr> vb_state := VIDEOBUF_ACTIVE \<rparr>) \<rparr>) = Inr s3"
    and s': "s' = (if active s3 = None then pxa_camera_start_capture s3 else s3)"
    by (auto simp: pxa_videobuf_queue_def Let_def split: sum.splits)
  from add_tail_buf_capture [OF a] s' show ?thesis by simp
qed

lemma start_channels_capture:
  assumes "pxa_dma_start_channels c s = Inr s'"
  shows "capture s' = capture s"
proof (rule for_each_invariant [where P = "\<lambda>t. capture t = capture s" and f = "start_channel c"])
  show "for_each (start_channel c) (chan_range s) s = Inr s'"
    using assms by (simp add: pxa_dma_start_channels_def)
  show "capture s = capture s" by simp
next
  fix x t t'
  assume "start_channel c x t = Inr t'" "capture t = capture s"
  then show "capture t' = capture s"
    by (auto simp: start_channel_def write_DCSR_def write_DDADR_def split: option.splits)
qed

lemma camera_irq_capture:
  assumes "pxa_camera_irq c s = Inr (r, s')" and "capture s \<noteq> []"
  shows "capture s' \<noteq> []"
proof (cases "r_cisr s = 0 \<or> r_cisr s AND CISR_EOF = 0")
  case True
  with assms show ?thesis
    by (auto simp: pxa_camera_irq_def Let_def write_CISR_def split: if_splits)
next
  case False
  from assms(2) obtain b q where q: "capture s = b # q" by (cases "capture s") auto
  from False assms(1) q obtain s3 where
    a: "pxa_dma_start_channels c
          (pxa_videobuf_set_actdma b ((write_CISR (r_cisr s) s) \<lparr> active := Some b \<rparr>)) = Inr s3"
    and s': "s' = write_CICR0 (r_cicr0 s3 OR CICR0_EOFM) s3"
    by (auto simp: pxa_camera_irq_def Let_def write_CISR_def split: sum.splits)
  from start_channels_capture [OF a] have "capture s3 = capture s"
    by (simp add: pxa_videobuf_set_actdma_def write_CISR_def Let_def)
  with s' assms(2) show ?thesis by (simp add: write_CICR0_def)
qed

lemma queue_inv_nonempty: "capture s \<noteq> [] \<Longrightarrow> queue_inv c s"
  by (simp add: queue_inv_def)

lemma queue_inv_idle: "idle c s \<Longrightarrow> queue_inv c s"
  by (simp add: idle_def queue_inv_def armed_def)

lemma queue_inv_hw:
  assumes "hw_step c s t" and "queue_inv c s"
  shows "queue_inv c t"
proof -
  from assms(1) obtain d dd cs where
    t: "t = s \<lparr> r_cisr := cs, r_dcsr := d, r_ddadr := dd \<rparr>"
    and run: "\<forall>ch. d ch AND DCSR_RUN c \<noteq> 0 \<longrightarrow> r_dcsr s ch AND DCSR_RUN c \<noteq> 0"
    unfolding hw_step_def by blast
  have "any_running c t \<longrightarrow> any_running c s"
    using run unfolding any_running_def chan_running_def t chan_range_def by auto
  moreover have "armed t = armed s" "capture t = capture s"
    by (simp_all add: t armed_def)
  ultimately show ?thesis using assms(2) unfolding queue_inv_def by simp
qed

lemma stopped_not_running:
  "\<not> any_running c (pxa_camera_wakeup b s)" if "remove1 b (capture s) = []"
  using that by (simp add: any_running_def chan_running_def)

lemma armed_mmio [simp]: "armed (s \<lparr> mmio := m \<rparr>) = armed s" "armed (s \<lparr> bufs := bf \<rparr>) = armed s"
  by (simp_all add: armed_def)

lemma any_running_upd [simp]:
  "any_running c (s \<lparr> mmio := m \<rparr>) = any_running c s"
  "any_running c (s \<lparr> bufs := bf \<rparr>) = any_running c s"
  by (simp_all add: any_running_def chan_running_def)

lemma queue_inv_upd [simp]:
  "queue_inv c (s \<lparr> mmio := m \<rparr>) = queue_inv c s"
  "queue_inv c (s \<lparr> bufs := bf \<rparr>) = queue_inv c s"
  by (simp_all add: queue_inv_def)

lemma queue_inv_wakeup: "queue_inv c (pxa_camera_check_link_miss c (pxa_camera_wakeup b s))"
proof (cases "remove1 b (capture s) = []")
  case True
  then have a: "active (pxa_camera_wakeup b s) = None" by simp
  then have e: "pxa_camera_check_link_miss c (pxa_camera_wakeup b s) = pxa_camera_wakeup b s"
    by (simp add: check_link_miss_eq)
  have na: "\<not> armed (pxa_camera_wakeup b s)"
  proof -
    have "(r_cicr0 s AND NOT CICR0_ENB) AND CICR0_ENB = 0"
      by (rule bit_word_eqI) (auto simp: bit_simps)
    with True show ?thesis by (simp add: armed_def)
  qed
  from stopped_not_running [OF True] na show ?thesis
    unfolding e queue_inv_def by blast
next
  case False
  then show ?thesis by (intro queue_inv_nonempty) simp
qed

lemma first_not_last_nonempty: "\<not> first_is_last q \<Longrightarrow> q \<noteq> []"
  by (auto simp: first_is_last_def)

lemma queue_inv_dma_irq:
  assumes "queue_inv c s"
  shows "queue_inv c (pxa_camera_dma_irq c channel act_dma s)"
proof -
  define s1 where "s1 = s \<lparr> mmio := mmio s @ [W_DCSR channel (r_dcsr s channel)] \<rparr>"
  have i1: "queue_inv c s1" using assms by (simp add: s1_def)
  have c1: "capture s1 = capture s" by (simp add: s1_def)
  show ?thesis
  proof (cases "active s")
    case None
    with i1 show ?thesis
      by (simp add: pxa_camera_dma_irq_def Let_def write_DCSR_same s1_def)
  next
    case (Some b)
    have r: "pxa_camera_dma_irq c channel act_dma s = s1
        \<or> (\<not> first_is_last (capture s) \<and> pxa_camera_dma_irq c channel act_dma s =
              pxa_camera_start_capture (pxa_camera_stop_capture s1))
        \<or> pxa_camera_dma_irq c channel act_dma s =
              pxa_camera_check_link_miss c (pxa_camera_wakeup b
                (s1 \<lparr> bufs := (bufs s1) (b := (bufs s1 b) \<lparr> active_dma := 0 \<rparr>) \<rparr>))
        \<or> pxa_camera_dma_irq c channel act_dma s =
              s1 \<lparr> bufs := (bufs s1) (b := (bufs s1 b)
                     \<lparr> active_dma := active_dma (bufs s1 b) AND NOT act_dma \<rparr>) \<rparr>"
      using Some
      by (auto simp: pxa_camera_dma_irq_def Let_def write_DCSR_same s1_def)
    then show ?thesis
    proof (elim disjE conjE)
      assume "pxa_camera_dma_irq c channel act_dma s = s1"
      with i1 show ?thesis by simp
    next
      assume nl: "\<not> first_is_last (capture s)"
        and e: "pxa_camera_dma_irq c channel act_dma s =
              pxa_camera_start_capture (pxa_camera_stop_capture s1)"
      from first_not_last_nonempty [OF nl] show ?thesis
        unfolding e by (intro queue_inv_nonempty) (simp add: c1)
    next
      assume e: "pxa_camera_dma_irq c channel act_dma s =
              pxa_camera_check_link_miss c (pxa_camera_wakeup b
                (s1 \<lparr> bufs := (bufs s1) (b := (bufs s1 b) \<lparr> active_dma := 0 \<rparr>) \<rparr>))"
      show ?thesis unfolding e by (rule queue_inv_wakeup)
    next
      assume e: "pxa_camera_dma_irq c channel act_dma s =
              s1 \<lparr> bufs := (bufs s1) (b := (bufs s1 b)
                     \<lparr> active_dma := active_dma (bufs s1 b) AND NOT act_dma \<rparr>) \<rparr>"
      show ?thesis unfolding e using i1 by simp
    qed
  qed
qed

lemma reachable_queue_inv: "reachable c s \<Longrightarrow> queue_inv c s"
proof (induction rule: reachable.induct)
  case (r_idle s)
  then show ?case by (rule queue_inv_idle)
next
  case (r_hw s s')
  then show ?case by (blast intro: queue_inv_hw)
next
  case (r_queue s b s')
  from videobuf_queue_capture [OF r_queue.hyps(3)] show ?case
    by (intro queue_inv_nonempty) simp
next
  case (r_irq s r s')
  from r_irq.IH r_irq.hyps(2) have "capture s \<noteq> []" by (simp add: queue_inv_def)
  from camera_irq_capture [OF r_irq.hyps(3) this] show ?case
    by (rule queue_inv_nonempty)
next
  case (r_dma_irq s channel act_dma)
  then show ?case by (intro queue_inv_dma_irq)
qed

text \<open>
  Claim C8. In every state that the capture state machine reaches from an idle device,
  a running DMA channel implies a non-empty capture queue. And when
  \<^verbatim>\<open>pxa_camera_wakeup\<close> retires the last queued buffer, the state it returns has every
  channel stopped (its control register written to 0), every channel's recorded tail
  cleared, no active buffer and the interface disabled.
\<close>

theorem running_implies_queued:
  "(reachable c s \<longrightarrow> any_running c s \<longrightarrow> capture s \<noteq> [])
   \<and> (remove1 b (capture s) = [] \<longrightarrow>
        capture (pxa_camera_wakeup b s) = []
        \<and> \<not> any_running c (pxa_camera_wakeup b s)
        \<and> (\<forall>i \<in> set (chan_range s).
              r_dcsr (pxa_camera_wakeup b s) (dma_chans s i) = 0
              \<and> sg_tail (pxa_camera_wakeup b s) i = None)
        \<and> active (pxa_camera_wakeup b s) = None
        \<and> r_cicr0 (pxa_camera_wakeup b s) AND CICR0_ENB = 0)"
proof (intro conjI impI)
  assume "reachable c s" and "any_running c s"
  with reachable_queue_inv [of c s] show "capture s \<noteq> []"
    by (simp add: queue_inv_def)
next
  assume e: "remove1 b (capture s) = []"
  then show "capture (pxa_camera_wakeup b s) = []" by simp
  from e show "\<not> any_running c (pxa_camera_wakeup b s)" by (rule stopped_not_running)
  from e show "\<forall>i \<in> set (chan_range s).
              r_dcsr (pxa_camera_wakeup b s) (dma_chans s i) = 0
              \<and> sg_tail (pxa_camera_wakeup b s) i = None"
    by simp
  from e show "active (pxa_camera_wakeup b s) = None" by simp
  have "(r_cicr0 s AND NOT CICR0_ENB) AND CICR0_ENB = 0"
    by (rule bit_word_eqI) (auto simp: bit_simps)
  with e show "r_cicr0 (pxa_camera_wakeup b s) AND CICR0_ENB = 0" by simp
qed

lemma add_tail_ok:
  "\<forall>i \<in> set xs. sg_cpu (dmas (bufs s b) i) \<noteq> None \<Longrightarrow>
   \<exists>s'. for_each (add_tail_chan c b) xs s = Inr s' \<and> active s' = active s
        \<and> capture s' = capture s \<and> bufs s' = bufs s \<and> channels s' = channels s
        \<and> dma_chans s' = dma_chans s \<and> r_cicr0 s' = r_cicr0 s \<and> r_dcsr s' = r_dcsr s"
proof (induction xs arbitrary: s)
  case Nil
  then show ?case by simp
next
  case (Cons x xs)
  from Cons.prems obtain cpu where cpu: "sg_cpu (dmas (bufs s b) x) = Some cpu" by auto
  then obtain s1 where s1: "add_tail_chan c b x s = Inr s1" "active s1 = active s"
    "capture s1 = capture s" "bufs s1 = bufs s" "channels s1 = channels s"
    "dma_chans s1 = dma_chans s" "r_cicr0 s1 = r_cicr0 s" "r_dcsr s1 = r_dcsr s"
    by (simp add: add_tail_chan_def Let_def)
  from Cons.prems s1(4) have "\<forall>i \<in> set xs. sg_cpu (dmas (bufs s1 b) i) \<noteq> None" by simp
  from Cons.IH [OF this] s1 show ?case by auto
qed

lemma videobuf_queue_ok:
  assumes "\<forall>i \<in> set (chan_range s). sg_cpu (dmas (bufs s b) i) \<noteq> None" and "active s = None"
  shows "\<exists>s'. pxa_videobuf_queue c b s = Inr s' \<and> armed s' \<and> capture s' = capture s @ [b]
           \<and> channels s' = channels s \<and> dma_chans s' = dma_chans s"
proof -
  define s2 where "s2 = s \<lparr> capture := capture s @ [b],
               bufs := (bufs s) (b := (bufs s b) \<lparr> vb_state := VIDEOBUF_ACTIVE \<rparr>) \<rparr>"
  from assms(1) have "\<forall>i \<in> set (chan_range s2). sg_cpu (dmas (bufs s2 b) i) \<noteq> None"
    by (simp add: s2_def)
  from add_tail_ok [OF this, of c] obtain s3 where
    s3: "pxa_dma_add_tail_buf c b s2 = Inr s3" "active s3 = active s2" "capture s3 = capture s2"
      "channels s3 = channels s2" "dma_chans s3 = dma_chans s2"
    unfolding pxa_dma_add_tail_buf_def by blast
  have "pxa_videobuf_queue c b s = Inr (pxa_camera_start_capture s3)"
    using s3(1,2) assms(2) by (simp add: pxa_videobuf_queue_def Let_def s2_def [symmetric]) (simp add: s2_def)
  with s3 show ?thesis by (simp add: s2_def)
qed

lemma start_channels_ok:
  "active s = Some a \<Longrightarrow>
   \<exists>s'. for_each (start_channel c) xs s = Inr s' \<and> active s' = Some a
        \<and> capture s' = capture s \<and> channels s' = channels s \<and> dma_chans s' = dma_chans s
        \<and> r_cicr0 s' = r_cicr0 s
        \<and> (\<forall>ch. r_dcsr s' ch = (if ch \<in> dma_chans s ` set xs then DCSR_RUN c else r_dcsr s ch))"
proof (induction xs arbitrary: s)
  case Nil
  then show ?case by simp
next
  case (Cons x xs)
  define s1 where "s1 = write_DCSR (dma_chans s x) (DCSR_RUN c)
                 (write_DDADR (dma_chans s x) (sg_dma (dmas (bufs s a) x)) s)"
  have s1: "start_channel c x s = Inr s1" "active s1 = Some a" "capture s1 = capture s"
    "channels s1 = channels s" "dma_chans s1 = dma_chans s" "r_cicr0 s1 = r_cicr0 s"
    "r_dcsr s1 = (r_dcsr s) (dma_chans s x := DCSR_RUN c)"
    using Cons.prems by (simp_all add: start_channel_def s1_def write_DCSR_def write_DDADR_def)
  from Cons.IH [OF s1(2)] obtain s' where
    s': "for_each (start_channel c) xs s1 = Inr s'" "active s' = Some a"
      "capture s' = capture s1" "channels s' = channels s1" "dma_chans s' = dma_chans s1"
      "r_cicr0 s' = r_cicr0 s1"
      "\<forall>ch. r_dcsr s' ch = (if ch \<in> dma_chans s1 ` set xs then DCSR_RUN c else r_dcsr s1 ch)"
    by blast
  have "for_each (start_channel c) (x # xs) s = Inr s'"
    by (simp add: s1(1) s'(1))
  moreover have "\<forall>ch. r_dcsr s' ch =
      (if ch \<in> dma_chans s ` set (x # xs) then DCSR_RUN c else r_dcsr s ch)"
    using s'(7) by (auto simp: s1(5,7))
  ultimately show ?case using s' s1 by auto
qed

lemma camera_irq_ok:
  assumes "capture s = b # q" and "r_cisr s AND CISR_EOF \<noteq> 0"
    and "0 < channels s" and "DCSR_RUN c \<noteq> 0"
  shows "\<exists>s'. pxa_camera_irq c s = Inr (IRQ_HANDLED, s') \<and> any_running c s'
           \<and> capture s' = capture s"
proof -
  define s2 where "s2 = pxa_videobuf_set_actdma b ((write_CISR (r_cisr s) s) \<lparr> active := Some b \<rparr>)"
  have a2: "active s2 = Some b" "capture s2 = capture s" "channels s2 = channels s"
    "dma_chans s2 = dma_chans s"
    by (simp_all add: s2_def pxa_videobuf_set_actdma_def Let_def write_CISR_def)
  from start_channels_ok [OF a2(1), of c "chan_range s2"] obtain s3 where
    s3: "pxa_dma_start_channels c s2 = Inr s3" "capture s3 = capture s2"
      "channels s3 = channels s2" "dma_chans s3 = dma_chans s2"
      "\<forall>ch. r_dcsr s3 ch =
         (if ch \<in> dma_chans s2 ` set (chan_range s2) then DCSR_RUN c else r_dcsr s2 ch)"
    unfolding pxa_dma_start_channels_def by blast
  from assms(2) have nz: "r_cisr s \<noteq> 0" by auto
  have cap: "capture (write_CISR (r_cisr s) s) = b # q"
    by (simp add: write_CISR_def assms(1))
  have r: "pxa_camera_irq c s = Inr (IRQ_HANDLED, write_CICR0 (r_cicr0 s3 OR CICR0_EOFM) s3)"
    using nz assms(2) s3(1)
    by (simp add: pxa_camera_irq_def Let_def cap s2_def [symmetric])
  have z: "0 \<in> set (chan_range s)"
    using assms(3) by (simp add: chan_range_def)
  have cr: "chan_range s2 = chan_range s"
    by (simp add: chan_range_def a2)
  have "r_dcsr s3 (dma_chans s 0) = DCSR_RUN c"
    using s3(5) z by (simp add: a2 cr)
  then have "any_running c (write_CICR0 (r_cicr0 s3 OR CICR0_EOFM) s3)"
    using z assms(4) s3(3,4)
    by (auto simp: any_running_def chan_running_def write_CICR0_def chan_range_def a2 intro!: bexI [of _ 0])
  with r s3(2) a2(2) show ?thesis by (simp add: write_CICR0_def)
qed

theorem running_implies_queued_witness:
  "reachable c0 devr \<and> any_running c0 devr \<and> capture devr \<noteq> []
   \<and> remove1 7 (capture devr) = []
   \<and> capture (pxa_camera_wakeup 7 devr) = []
   \<and> \<not> any_running c0 (pxa_camera_wakeup 7 devr)
   \<and> active (pxa_camera_wakeup 7 devr) = None"
proof -
  have i: "idle c0 devp"
    by (simp add: idle_def devp_def dev0_def any_running_def chan_running_def CICR0_ENB_def)
  have p: "\<forall>i \<in> set (chan_range devp). sg_cpu (dmas (bufs devp 7) i) \<noteq> None"
    "active devp = None" "capture devp = []" "channels devp = 3"
    by (simp_all add: devp_def dev0_def bufp_def)
  from videobuf_queue_ok [OF p(1,2), of c0] obtain s1 where
    s1: "pxa_videobuf_queue c0 7 devp = Inr s1" "armed s1" "capture s1 = capture devp @ [7]"
      "channels s1 = channels devp"
    by blast
  have q: "devq = s1" by (simp add: devq_def s1(1))
  have r1: "reachable c0 devq"
    unfolding q by (rule r_queue [OF r_idle [OF i] _ s1(1)]) (simp add: p)
  define t where "t = devq \<lparr> r_cisr := CISR_EOF \<rparr>"
  have hw: "hw_step c0 devq t"
    unfolding hw_step_def t_def
    by (rule exI [of _ "r_dcsr devq"], rule exI [of _ "r_ddadr devq"], rule exI [of _ CISR_EOF])
      simp
  have ta: "armed t" "capture t = [7]" "0 < channels t" "r_cisr t AND CISR_EOF \<noteq> 0"
    using s1(2,3,4) p(3,4) by (simp_all add: t_def q armed_def CISR_EOF_def)
  have run: "DCSR_RUN c0 \<noteq> 0" by (simp add: c0_def)
  from camera_irq_ok [OF ta(2,4,3) run] obtain s2 where
    s2: "pxa_camera_irq c0 t = Inr (IRQ_HANDLED, s2)" "any_running c0 s2" "capture s2 = capture t"
    by blast
  have r: "devr = s2" by (simp add: devr_def t_def [symmetric] s2(1))
  have r2: "reachable c0 devr"
    unfolding r by (rule r_irq [OF r_hw [OF r1 hw] ta(1) s2(1)])
  have ar: "any_running c0 devr" unfolding r by (rule s2(2))
  have cap: "capture devr = [7]" unfolding r using s2(3) ta(2) by simp
  then have e: "remove1 7 (capture devr) = []" by simp
  from running_implies_queued [of c0 devr 7] r2 ar e
  have "capture devr \<noteq> []" "capture (pxa_camera_wakeup 7 devr) = []"
    "\<not> any_running c0 (pxa_camera_wakeup 7 devr)" "active (pxa_camera_wakeup 7 devr) = None"
    by blast+
  with r2 ar e show ?thesis by blast
qed

subsection \<open>Chains linked by \<^verbatim>\<open>pxa_dma_add_tail_buf\<close>\<close>

lemma add_tail_chan_Inr:
  assumes "prepared (bufs s b) j"
  shows "\<exists>s1. add_tail_chan c b j s = Inr s1"
  using assms by (simp add: add_tail_chan_def prepared_def Let_def)

lemma add_tail_chan_fields:
  assumes "prepared (bufs s b) j" and "add_tail_chan c b j s = Inr s1"
  shows "bufs s1 = bufs s" "channels s1 = channels s"
    "sg_tail s1 = (sg_tail s) (j := Some (last_desc (bufs s b) j))"
    "a \<noteq> last_desc (bufs s b) j \<Longrightarrow> sg_tail s j \<noteq> Some a \<Longrightarrow> descs s1 a = descs s a"
    "sg_tail s j \<noteq> Some (last_desc (bufs s b) j) \<Longrightarrow>
       ddadr (descs s1 (last_desc (bufs s b) j)) = DDADR_STOP c"
    "sg_tail s j = Some t \<Longrightarrow> ddadr (descs s1 t) = sg_dma (dmas (bufs s b) j)"
  using assms
  by (auto simp: add_tail_chan_def prepared_def last_desc_def Let_def split: option.splits)

text \<open>What the loop of the linker leaves, for the channels \<open>xs\<close>.\<close>

lemma add_tail_loop:
  assumes "\<forall>j \<in> set xs. prepared (bufs s b) j"
  shows "\<exists>s'. for_each (add_tail_chan c b) xs s = Inr s' \<and> bufs s' = bufs s
      \<and> channels s' = channels s
      \<and> (\<forall>j. sg_tail s' j = (if j \<in> set xs then Some (last_desc (bufs s b) j) else sg_tail s j))
      \<and> (\<forall>a. a \<notin> last_desc (bufs s b) ` set xs \<longrightarrow> (\<forall>j \<in> set xs. sg_tail s j \<noteq> Some a) \<longrightarrow>
             descs s' a = descs s a)"
  using assms
proof (induction xs arbitrary: s)
  case Nil
  then show ?case by simp
next
  case (Cons x xs)
  from Cons.prems have px: "prepared (bufs s b) x" by simp
  from add_tail_chan_Inr [OF px] obtain s1 where s1: "add_tail_chan c b x s = Inr s1" by blast
  note f = add_tail_chan_fields [OF px s1]
  from Cons.prems f(1) have "\<forall>j \<in> set xs. prepared (bufs s1 b) j" by simp
  from Cons.IH [OF this] obtain s' where
    r: "for_each (add_tail_chan c b) xs s1 = Inr s'" and b: "bufs s' = bufs s1"
    and ch: "channels s' = channels s1"
    and t: "\<forall>j. sg_tail s' j = (if j \<in> set xs then Some (last_desc (bufs s1 b) j) else sg_tail s1 j)"
    and fr: "\<forall>a. a \<notin> last_desc (bufs s1 b) ` set xs \<longrightarrow> (\<forall>j \<in> set xs. sg_tail s1 j \<noteq> Some a) \<longrightarrow>
             descs s' a = descs s1 a"
    by blast
  have r': "for_each (add_tail_chan c b) (x # xs) s = Inr s'"
    by (simp add: s1 r)
  have t': "\<forall>j. sg_tail s' j =
      (if j \<in> set (x # xs) then Some (last_desc (bufs s b) j) else sg_tail s j)"
    using t by (simp add: f(1,3))
  have fr': "\<forall>a. a \<notin> last_desc (bufs s b) ` set (x # xs) \<longrightarrow>
      (\<forall>j \<in> set (x # xs). sg_tail s j \<noteq> Some a) \<longrightarrow> descs s' a = descs s a"
  proof (intro allI impI)
    fix a
    assume n: "a \<notin> last_desc (bufs s b) ` set (x # xs)"
      and o: "\<forall>j \<in> set (x # xs). sg_tail s j \<noteq> Some a"
    from n have n1: "a \<noteq> last_desc (bufs s b) x" "a \<notin> last_desc (bufs s1 b) ` set xs"
      by (auto simp: f(1))
    from o n1(1) have "\<forall>j \<in> set xs. sg_tail s1 j \<noteq> Some a"
      by (auto simp: f(3))
    with fr n1(2) have "descs s' a = descs s1 a" by blast
    also from o have "descs s1 a = descs s a"
      by (intro f(4) n1(1)) simp
    finally show "descs s' a = descs s a" .
  qed
  from r' b ch t' fr' f(1,2) show ?case by (intro exI [of _ s']) simp
qed

lemma add_tail_loop_frame:
  assumes "for_each (add_tail_chan c b) xs s = Inr s'" and "\<forall>j \<in> set xs. prepared (bufs s b) j"
  shows "bufs s' = bufs s" and "channels s' = channels s"
    and "sg_tail s' j = (if j \<in> set xs then Some (last_desc (bufs s b) j) else sg_tail s j)"
    and "a \<notin> last_desc (bufs s b) ` set xs \<Longrightarrow> \<forall>j \<in> set xs. sg_tail s j \<noteq> Some a \<Longrightarrow>
         descs s' a = descs s a"
proof -
  from add_tail_loop [OF assms(2), of c] obtain s'' where
    x: "for_each (add_tail_chan c b) xs s = Inr s'' \<and> bufs s'' = bufs s
      \<and> channels s'' = channels s
      \<and> (\<forall>j. sg_tail s'' j = (if j \<in> set xs then Some (last_desc (bufs s b) j) else sg_tail s j))
      \<and> (\<forall>a. a \<notin> last_desc (bufs s b) ` set xs \<longrightarrow> (\<forall>j \<in> set xs. sg_tail s j \<noteq> Some a) \<longrightarrow>
             descs s'' a = descs s a)" ..
  with assms(1) have e: "s'' = s'" by simp
  from x show "bufs s' = bufs s" unfolding e by (elim conjE)
  from x show "channels s' = channels s" unfolding e by (elim conjE)
  from x have "\<forall>j. sg_tail s' j = (if j \<in> set xs then Some (last_desc (bufs s b) j) else sg_tail s j)"
    unfolding e by (elim conjE)
  then show "sg_tail s' j = (if j \<in> set xs then Some (last_desc (bufs s b) j) else sg_tail s j)" ..
  from x have "\<forall>a. a \<notin> last_desc (bufs s b) ` set xs \<longrightarrow> (\<forall>j \<in> set xs. sg_tail s j \<noteq> Some a) \<longrightarrow>
             descs s' a = descs s a"
    unfolding e by (elim conjE)
  then show "a \<notin> last_desc (bufs s b) ` set xs \<Longrightarrow> \<forall>j \<in> set xs. sg_tail s j \<noteq> Some a \<Longrightarrow>
         descs s' a = descs s a"
    by (elim allE [of _ a] impE)
qed

lemma add_tail_loop_Inr:
  assumes "\<forall>j \<in> set xs. prepared (bufs s b) j"
  shows "\<exists>s'. for_each (add_tail_chan c b) xs s = Inr s'"
proof -
  from add_tail_loop [OF assms, of c] obtain s' where
    x: "for_each (add_tail_chan c b) xs s = Inr s' \<and> bufs s' = bufs s
      \<and> channels s' = channels s
      \<and> (\<forall>j. sg_tail s' j = (if j \<in> set xs then Some (last_desc (bufs s b) j) else sg_tail s j))
      \<and> (\<forall>a. a \<notin> last_desc (bufs s b) ` set xs \<longrightarrow> (\<forall>j \<in> set xs. sg_tail s j \<noteq> Some a) \<longrightarrow>
             descs s' a = descs s a)" ..
  then have "for_each (add_tail_chan c b) xs s = Inr s'" ..
  then show ?thesis ..
qed

text \<open>The links that the loop writes, when nothing else is written over them.\<close>

lemma add_tail_loop_links:
  assumes "for_each (add_tail_chan c b) xs s = Inr s'" and "\<forall>j \<in> set xs. prepared (bufs s b) j"
    and "distinct xs" and "i \<in> set xs"
    and "\<forall>j \<in> set xs. j \<noteq> i \<longrightarrow> last_desc (bufs s b) j \<noteq> last_desc (bufs s b) i"
    and "\<forall>j \<in> set xs. sg_tail s j \<noteq> Some (last_desc (bufs s b) i)"
  shows "ddadr (descs s' (last_desc (bufs s b) i)) = DDADR_STOP c"
    and "sg_tail s i = Some t \<Longrightarrow> \<forall>j \<in> set xs. last_desc (bufs s b) j \<noteq> t \<Longrightarrow>
         \<forall>j \<in> set xs. j \<noteq> i \<longrightarrow> sg_tail s j \<noteq> Some t \<Longrightarrow>
         ddadr (descs s' t) = sg_dma (dmas (bufs s b) i)"
proof -
  have "ddadr (descs s' (last_desc (bufs s b) i)) = DDADR_STOP c
    \<and> (sg_tail s i = Some t \<longrightarrow> (\<forall>j \<in> set xs. last_desc (bufs s b) j \<noteq> t) \<longrightarrow>
         (\<forall>j \<in> set xs. j \<noteq> i \<longrightarrow> sg_tail s j \<noteq> Some t) \<longrightarrow>
         ddadr (descs s' t) = sg_dma (dmas (bufs s b) i))"
    using assms
  proof (induction xs arbitrary: s)
    case Nil
    then show ?case by simp
  next
    case (Cons x xs)
    from Cons.prems(2) have px: "prepared (bufs s b) x" by simp
    from Cons.prems(1) obtain s1 where s1: "add_tail_chan c b x s = Inr s1"
      and r: "for_each (add_tail_chan c b) xs s1 = Inr s'"
      by (auto split: sum.splits)
    note f = add_tail_chan_fields [OF px s1]
    from Cons.prems(2) f(1) have pr1: "\<forall>j \<in> set xs. prepared (bufs s1 b) j" by simp
    from Cons.prems(3) have d: "x \<notin> set xs" "distinct xs" by simp_all
    have fr: "\<forall>a. a \<notin> last_desc (bufs s1 b) ` set xs \<longrightarrow> (\<forall>j \<in> set xs. sg_tail s1 j \<noteq> Some a) \<longrightarrow>
             descs s' a = descs s1 a"
      using add_tail_loop_frame(4) [OF r pr1] by blast
    have tl1: "\<And>j. j \<in> set xs \<Longrightarrow> sg_tail s1 j = sg_tail s j"
      using d(1) by (auto simp: f(3))
    show ?case
    proof (cases "x = i")
      case True
      have l: "ddadr (descs s1 (last_desc (bufs s b) i)) = DDADR_STOP c"
        using Cons.prems(6) True by (intro f(5) [unfolded True]) simp
      have "last_desc (bufs s b) i \<notin> last_desc (bufs s1 b) ` set xs"
        using Cons.prems(5) d(1) True by (auto simp: f(1))
      moreover have "\<forall>j \<in> set xs. sg_tail s1 j \<noteq> Some (last_desc (bufs s b) i)"
        using Cons.prems(6) tl1 by simp
      ultimately have k: "descs s' (last_desc (bufs s b) i) = descs s1 (last_desc (bufs s b) i)"
        using fr by blast
      have "ddadr (descs s' t) = sg_dma (dmas (bufs s b) i)"
        if t: "sg_tail s i = Some t" and nl: "\<forall>j \<in> set (x # xs). last_desc (bufs s b) j \<noteq> t"
          and nt: "\<forall>j \<in> set (x # xs). j \<noteq> i \<longrightarrow> sg_tail s j \<noteq> Some t"
      proof -
        from t have "ddadr (descs s1 t) = sg_dma (dmas (bufs s b) i)"
          by (rule f(6) [unfolded True])
        moreover have "t \<notin> last_desc (bufs s1 b) ` set xs"
          using nl by (auto simp: f(1))
        moreover have "\<forall>j \<in> set xs. sg_tail s1 j \<noteq> Some t"
          using nt tl1 d(1) True by auto
        ultimately show ?thesis using fr by simp
      qed
      with l k show ?thesis by simp
    next
      case False
      with Cons.prems(4) have i: "i \<in> set xs" by simp
      have h5: "\<forall>j \<in> set xs. j \<noteq> i \<longrightarrow> last_desc (bufs s1 b) j \<noteq> last_desc (bufs s1 b) i"
        using Cons.prems(5) by (simp add: f(1))
      have h6: "\<forall>j \<in> set xs. sg_tail s1 j \<noteq> Some (last_desc (bufs s1 b) i)"
        using Cons.prems(6) tl1 by (simp add: f(1))
      from Cons.IH [OF r pr1 d(2) i h5 h6]
      have ih: "ddadr (descs s' (last_desc (bufs s1 b) i)) = DDADR_STOP c
        \<and> (sg_tail s1 i = Some t \<longrightarrow> (\<forall>j \<in> set xs. last_desc (bufs s1 b) j \<noteq> t) \<longrightarrow>
         (\<forall>j \<in> set xs. j \<noteq> i \<longrightarrow> sg_tail s1 j \<noteq> Some t) \<longrightarrow>
         ddadr (descs s' t) = sg_dma (dmas (bufs s1 b) i))" .
      then show ?thesis
        using tl1 [OF i] tl1 by (auto simp: f(1))
    qed
  qed
  then show "ddadr (descs s' (last_desc (bufs s b) i)) = DDADR_STOP c"
    and "sg_tail s i = Some t \<Longrightarrow> \<forall>j \<in> set xs. last_desc (bufs s b) j \<noteq> t \<Longrightarrow>
         \<forall>j \<in> set xs. j \<noteq> i \<longrightarrow> sg_tail s j \<noteq> Some t \<Longrightarrow>
         ddadr (descs s' t) = sg_dma (dmas (bufs s b) i)"
    by blast+
qed


lemma concat_map_distinct:
  "distinct (concat (map f js)) \<Longrightarrow> j \<in> set js \<Longrightarrow> distinct (f j)"
  by (induction js) auto

lemma concat_map_disjoint:
  "distinct (concat (map f js)) \<Longrightarrow> distinct js \<Longrightarrow> j \<in> set js \<Longrightarrow> j' \<in> set js \<Longrightarrow>
   a \<in> set (f j) \<Longrightarrow> a \<in> set (f j') \<Longrightarrow> j = j'"
  by (induction js) auto

lemma chan_descs_mem:
  assumes "0 \<le> k" and "k \<le> sglen (dmas buf j)"
  shows "desc_addr (sg_dma (dmas buf j)) k \<in> set (chan_descs buf j)"
proof -
  from assms have "nat k < Suc (nat (sglen (dmas buf j)))" by arith
  then have "nat k \<in> set [0..<Suc (nat (sglen (dmas buf j)))]"
    by (simp only: set_upt atLeastLessThan_iff le0 simp_thms)
  then have "(\<lambda>k. desc_addr (sg_dma (dmas buf j)) (int k)) (nat k) \<in> set (chan_descs buf j)"
    unfolding chan_descs_def set_map by (rule imageI)
  with assms(1) show ?thesis by simp
qed

lemma buf_descs_mem:
  assumes "0 \<le> k" and "k \<le> sglen (dmas buf j)" and "j \<in> set js"
  shows "desc_addr (sg_dma (dmas buf j)) k \<in> set (buf_descs buf js)"
  using chan_descs_mem [OF assms(1,2)] assms(3) by (auto simp: buf_descs_def)

lemma buf_descs_inj:
  assumes d: "distinct (buf_descs buf js)" and dj: "distinct js"
    and j: "j \<in> set js" "j' \<in> set js"
    and k: "0 \<le> k" "k \<le> sglen (dmas buf j)" and k': "0 \<le> k'" "k' \<le> sglen (dmas buf j')"
    and e: "desc_addr (sg_dma (dmas buf j)) k = desc_addr (sg_dma (dmas buf j')) k'"
  shows "j = j' \<and> k = k'"
proof -
  from d have dc: "distinct (concat (map (chan_descs buf) js))" by (simp add: buf_descs_def)
  have m: "desc_addr (sg_dma (dmas buf j)) k \<in> set (chan_descs buf j)"
    "desc_addr (sg_dma (dmas buf j)) k \<in> set (chan_descs buf j')"
    using chan_descs_mem [OF k] chan_descs_mem [OF k'] e by simp_all
  from concat_map_disjoint [OF dc dj j m] have jj: "j = j'" .
  from concat_map_distinct [OF dc j(1)]
  have inj: "inj_on (\<lambda>k. desc_addr (sg_dma (dmas buf j)) (int k)) (set [0..<Suc (nat (sglen (dmas buf j)))])"
    unfolding chan_descs_def by (simp only: distinct_map)
  from k' jj have k'': "k' \<le> sglen (dmas buf j)" by simp
  from k k'(1) k'' have "nat k < Suc (nat (sglen (dmas buf j)))"
    "nat k' < Suc (nat (sglen (dmas buf j)))" by arith+
  then have mem: "nat k \<in> set [0..<Suc (nat (sglen (dmas buf j)))]"
    "nat k' \<in> set [0..<Suc (nat (sglen (dmas buf j)))]"
    by (simp_all only: set_upt atLeastLessThan_iff le0 simp_thms)
  have "desc_addr (sg_dma (dmas buf j)) (int (nat k)) = desc_addr (sg_dma (dmas buf j)) (int (nat k'))"
    using e k k' jj by simp
  from inj_onD [OF inj this mem] have "nat k = nat k'" .
  with k k' jj show ?thesis by simp
qed

lemma reaches_chain:
  assumes "\<forall>k. 0 \<le> k \<and> k < n \<longrightarrow> ddadr (mem (desc_addr base k)) = desc_addr base (k + 1)
      \<and> desc_addr base (k + 1) \<noteq> DDADR_STOP c"
  shows "m \<le> nat n \<Longrightarrow> reaches c mem m (desc_addr base (n - int m)) (desc_addr base n)"
proof (induction m)
  case 0
  then show ?case by simp
next
  case (Suc m)
  from Suc.prems have k: "0 \<le> n - int (Suc m)" "n - int (Suc m) < n" by simp_all
  with assms have "ddadr (mem (desc_addr base (n - int (Suc m)))) = desc_addr base (n - int (Suc m) + 1)"
    "desc_addr base (n - int (Suc m) + 1) \<noteq> DDADR_STOP c" by blast+
  moreover have "n - int (Suc m) + 1 = n - int m" by simp
  ultimately show ?case using Suc by simp
qed

lemma reaches_snoc:
  "reaches c mem m a t \<Longrightarrow> ddadr (mem t) \<noteq> DDADR_STOP c \<Longrightarrow>
   reaches c mem (Suc m) a (ddadr (mem t))"
  by (induction m arbitrary: a) auto

lemma distinct_chan_range: "distinct (chan_range s)"
  by (simp add: chan_range_def)


text \<open>
  Claim C3. Two buffers are appended one after the other by \<^verbatim>\<open>pxa_dma_add_tail_buf\<close>. Both are
  prepared on every channel, their descriptor arrays are pairwise disjoint and hold no
  descriptor at the address of the stop marker, no tail recorded before lies in the first
  buffer's arrays, and the first buffer's data descriptors on channel \<open>i\<close> are linked as
  \<^verbatim>\<open>pxa_init_dma_channel\<close> leaves them. Then both appends return, and in the state after the
  second one, on channel \<open>i\<close>: the link of the second buffer's last descriptor is the stop
  marker, the recorded tail is that descriptor, and the links lead from the head of the first
  buffer's chain to the head of the second buffer's chain, no descriptor on the way having
  the stop marker as its link.
\<close>

theorem pxa_dma_add_tail_buf_links:
  assumes ch: "i \<in> set (chan_range s)"
    and prep: "\<forall>j \<in> set (chan_range s). prepared (bufs s b1) j \<and> prepared (bufs s b2) j"
    and sep: "distinct (buf_descs (bufs s b1) (chan_range s) @ buf_descs (bufs s b2) (chan_range s))"
    and nostop: "DDADR_STOP c \<notin>
        set (buf_descs (bufs s b1) (chan_range s) @ buf_descs (bufs s b2) (chan_range s))"
    and tails: "\<forall>j \<in> set (chan_range s). \<forall>t. sg_tail s j = Some t \<longrightarrow>
        t \<notin> set (buf_descs (bufs s b1) (chan_range s))"
    and chain: "\<forall>k. 0 \<le> k \<and> k < sglen (dmas (bufs s b1) i) \<longrightarrow>
        ddadr (descs s (desc_addr (sg_dma (dmas (bufs s b1) i)) k))
          = desc_addr (sg_dma (dmas (bufs s b1) i)) (k + 1)"
  shows "\<exists>s1 s2. pxa_dma_add_tail_buf c b1 s = Inr s1 \<and> pxa_dma_add_tail_buf c b2 s1 = Inr s2
      \<and> ddadr (descs s2 (last_desc (bufs s b2) i)) = DDADR_STOP c
      \<and> sg_tail s2 i = Some (last_desc (bufs s b2) i)
      \<and> reaches c (descs s2) (Suc (nat (sglen (dmas (bufs s b1) i))))
            (sg_dma (dmas (bufs s b1) i)) (sg_dma (dmas (bufs s b2) i))"
proof -
  define js where "js = chan_range s"
  define B1 where "B1 = bufs s b1"
  define B2 where "B2 = bufs s b2"
  define n where "n = sglen (dmas B1 i)"
  define base where "base = sg_dma (dmas B1 i)"
  note d = js_def [symmetric] B1_def [symmetric] B2_def [symmetric]
  have dj: "distinct js" by (simp add: js_def distinct_chan_range)
  from ch have i: "i \<in> set js" by (simp add: js_def)
  from prep have p1: "\<forall>j \<in> set js. prepared B1 j" and p2: "\<forall>j \<in> set js. prepared B2 j"
    by (simp_all add: js_def B1_def B2_def)
  from sep have d1: "distinct (buf_descs B1 js)" and d2: "distinct (buf_descs B2 js)"
    and d12: "set (buf_descs B1 js) \<inter> set (buf_descs B2 js) = {}"
    by (simp_all add: d)
  from nostop have ns: "DDADR_STOP c \<notin> set (buf_descs B1 js)" "DDADR_STOP c \<notin> set (buf_descs B2 js)"
    by (simp_all add: d)
  have nn: "\<And>j. j \<in> set js \<Longrightarrow> 0 \<le> sglen (dmas B1 j)" "\<And>j. j \<in> set js \<Longrightarrow> 0 \<le> sglen (dmas B2 j)"
    using p1 p2 by (simp_all add: prepared_def)
  have l1: "\<And>j. j \<in> set js \<Longrightarrow> last_desc B1 j \<in> set (buf_descs B1 js)"
    unfolding last_desc_def by (rule buf_descs_mem) (simp_all add: nn)
  have l2: "\<And>j. j \<in> set js \<Longrightarrow> last_desc B2 j \<in> set (buf_descs B2 js)"
    unfolding last_desc_def by (rule buf_descs_mem) (simp_all add: nn)
  have l1_inj: "last_desc B1 j \<noteq> last_desc B1 i" if "j \<in> set js" "j \<noteq> i" for j
  proof
    assume "last_desc B1 j = last_desc B1 i"
    then have e: "desc_addr (sg_dma (dmas B1 j)) (sglen (dmas B1 j))
        = desc_addr (sg_dma (dmas B1 i)) (sglen (dmas B1 i))"
      by (simp add: last_desc_def)
    from buf_descs_inj [OF d1 dj that(1) i nn(1) [OF that(1)] order_refl nn(1) [OF i] order_refl e]
      that(2)
    show False by simp
  qed
  have l2_inj: "last_desc B2 j \<noteq> last_desc B2 i" if "j \<in> set js" "j \<noteq> i" for j
  proof
    assume "last_desc B2 j = last_desc B2 i"
    then have e: "desc_addr (sg_dma (dmas B2 j)) (sglen (dmas B2 j))
        = desc_addr (sg_dma (dmas B2 i)) (sglen (dmas B2 i))"
      by (simp add: last_desc_def)
    from buf_descs_inj [OF d2 dj that(1) i nn(2) [OF that(1)] order_refl nn(2) [OF i] order_refl e]
      that(2)
    show False by simp
  qed
  have l12: "last_desc B1 j \<noteq> last_desc B2 j'" if "j \<in> set js" "j' \<in> set js" for j j'
  proof
    assume "last_desc B1 j = last_desc B2 j'"
    with l1 [OF that(1)] l2 [OF that(2)] have "last_desc B1 j \<in> set (buf_descs B1 js) \<inter> set (buf_descs B2 js)"
      by simp
    with d12 show False by simp
  qed
  have dat: "desc_addr base k \<in> set (buf_descs B1 js)" if "0 \<le> k" "k \<le> n" for k
    unfolding base_def using that i by (intro buf_descs_mem) (simp_all add: n_def)
  have dat_last: "desc_addr base k \<noteq> last_desc B1 j" if "0 \<le> k" "k < n" "j \<in> set js" for k j
  proof
    assume "desc_addr base k = last_desc B1 j"
    then have "desc_addr (sg_dma (dmas B1 i)) k = desc_addr (sg_dma (dmas B1 j)) (sglen (dmas B1 j))"
      by (simp add: base_def last_desc_def)
    from buf_descs_inj [OF d1 dj i that(3) that(1) _ nn(1) [OF that(3)] order_refl this] that(2)
    show False by (simp add: n_def)
  qed
  from p1 have p1': "\<forall>j \<in> set js. prepared (bufs s b1) j" by (simp add: B1_def)
  from add_tail_loop_Inr [OF p1', of c] obtain s1 where
    r1: "for_each (add_tail_chan c b1) js s = Inr s1" ..
  note f1 = add_tail_loop_frame [OF r1 p1', folded B1_def]
  note b1 = f1(1) and c1 = f1(2) and t1 = f1(3) and fr1 = f1(4)
  have a1: "pxa_dma_add_tail_buf c b1 s = Inr s1"
    using r1 by (simp add: pxa_dma_add_tail_buf_def js_def)
  have js1: "chan_range s1 = js" by (simp add: chan_range_def c1 js_def)
  have B21: "bufs s1 b2 = B2" by (simp add: b1 B2_def)
  from p2 have p2': "\<forall>j \<in> set js. prepared (bufs s1 b2) j" by (simp add: B21)
  from add_tail_loop_Inr [OF p2', of c] obtain s2 where
    r2: "for_each (add_tail_chan c b2) js s1 = Inr s2" ..
  note f2 = add_tail_loop_frame [OF r2 p2', unfolded B21]
  note t2 = f2(3) and fr2 = f2(4)
  have a2: "pxa_dma_add_tail_buf c b2 s1 = Inr s2"
    using r2 by (simp add: pxa_dma_add_tail_buf_def js1)
  have h5: "\<forall>j \<in> set js. j \<noteq> i \<longrightarrow> last_desc (bufs s1 b2) j \<noteq> last_desc (bufs s1 b2) i"
    using l2_inj by (simp add: B21)
  have h6: "\<forall>j \<in> set js. sg_tail s1 j \<noteq> Some (last_desc (bufs s1 b2) i)"
    using l12 i by (simp add: B21 t1)
  note links = add_tail_loop_links [OF r2 p2' dj i h5 h6, unfolded B21]
  have stop: "ddadr (descs s2 (last_desc B2 i)) = DDADR_STOP c" by (rule links(1))
  have tail: "sg_tail s2 i = Some (last_desc B2 i)" by (simp add: t2 i)
  have "ddadr (descs s2 (last_desc B1 i)) = sg_dma (dmas B2 i)"
  proof (rule links(2))
    show "sg_tail s1 i = Some (last_desc B1 i)" by (simp add: t1 i)
    show "\<forall>j \<in> set js. last_desc B2 j \<noteq> last_desc B1 i"
    proof
      fix j assume "j \<in> set js"
      from l12 [OF i this] show "last_desc B2 j \<noteq> last_desc B1 i" by (rule not_sym)
    qed
    show "\<forall>j \<in> set js. j \<noteq> i \<longrightarrow> sg_tail s1 j \<noteq> Some (last_desc B1 i)"
      using l1_inj by (simp add: t1)
  qed
  then have join: "ddadr (descs s2 (desc_addr base n)) = sg_dma (dmas B2 i)"
    by (simp add: last_desc_def base_def n_def)
  have head2: "sg_dma (dmas B2 i) \<noteq> DDADR_STOP c"
    using buf_descs_mem [of 0 B2 i js] nn(2) [OF i] i ns(2) by (auto simp: desc_addr_0)
  have disj: "a \<notin> set (buf_descs B2 js)" if "a \<in> set (buf_descs B1 js)" for a
  proof
    assume "a \<in> set (buf_descs B2 js)"
    with that have "a \<in> set (buf_descs B1 js) \<inter> set (buf_descs B2 js)" by simp
    with d12 show False by simp
  qed
  have keep: "descs s2 (desc_addr base k) = descs s (desc_addr base k)" if k: "0 \<le> k" "k < n" for k
  proof -
    from k have m: "desc_addr base k \<in> set (buf_descs B1 js)" by (intro dat) simp_all
    have x1: "desc_addr base k \<notin> last_desc B2 ` set js"
    proof
      assume "desc_addr base k \<in> last_desc B2 ` set js"
      then obtain j where j: "desc_addr base k = last_desc B2 j" "j \<in> set js" ..
      from l2 [OF j(2)] disj [OF m] j(1) show False by simp
    qed
    have x2: "\<forall>j \<in> set js. sg_tail s1 j \<noteq> Some (desc_addr base k)"
    proof
      fix j assume j: "j \<in> set js"
      from dat_last [OF k j] have "last_desc B1 j \<noteq> desc_addr base k" by (rule not_sym)
      then show "sg_tail s1 j \<noteq> Some (desc_addr base k)" by (simp add: t1 j)
    qed
    from x1 x2 have e2: "descs s2 (desc_addr base k) = descs s1 (desc_addr base k)"
      by (rule fr2)
    have x3: "desc_addr base k \<notin> last_desc B1 ` set js"
    proof
      assume "desc_addr base k \<in> last_desc B1 ` set js"
      then obtain j where j: "desc_addr base k = last_desc B1 j" "j \<in> set js" ..
      from dat_last [OF k j(2)] j(1) show False by simp
    qed
    have x4: "\<forall>j \<in> set js. sg_tail s j \<noteq> Some (desc_addr base k)"
    proof
      fix j assume j: "j \<in> set js"
      show "sg_tail s j \<noteq> Some (desc_addr base k)"
      proof
        assume "sg_tail s j = Some (desc_addr base k)"
        with tails j have "desc_addr base k \<notin> set (buf_descs B1 js)"
          unfolding d by blast
        with m show False by simp
      qed
    qed
    from x3 x4 have "descs s1 (desc_addr base k) = descs s (desc_addr base k)"
      by (rule fr1)
    with e2 show ?thesis by simp
  qed
  have "\<forall>k. 0 \<le> k \<and> k < n \<longrightarrow> ddadr (descs s2 (desc_addr base k)) = desc_addr base (k + 1)
      \<and> desc_addr base (k + 1) \<noteq> DDADR_STOP c"
  proof (intro allI impI conjI)
    fix k assume k: "0 \<le> k \<and> k < n"
    with chain show "ddadr (descs s2 (desc_addr base k)) = desc_addr base (k + 1)"
      by (simp add: keep d base_def [symmetric] n_def [symmetric])
    from k have "desc_addr base (k + 1) \<in> set (buf_descs B1 js)" by (intro dat) simp_all
    with ns(1) show "desc_addr base (k + 1) \<noteq> DDADR_STOP c" by auto
  qed
  from reaches_chain [OF this, of "nat n"] nn(1) [OF i]
  have "reaches c (descs s2) (nat n) base (desc_addr base n)"
    by (simp add: n_def [symmetric] desc_addr_0)
  from reaches_snoc [OF this] join head2
  have "reaches c (descs s2) (Suc (nat n)) base (sg_dma (dmas B2 i))" by simp
  with a1 a2 stop tail show ?thesis
    unfolding d n_def [symmetric] base_def [symmetric] d by blast
qed


theorem pxa_dma_add_tail_buf_links_witness:
  "2 \<in> set (chan_range devl)
   \<and> list_all (\<lambda>j. prepared (bufs devl 7) j \<and> prepared (bufs devl 8) j) (chan_range devl)
   \<and> distinct (buf_descs (bufs devl 7) (chan_range devl) @ buf_descs (bufs devl 8) (chan_range devl))
   \<and> DDADR_STOP c0 \<notin>
        set (buf_descs (bufs devl 7) (chan_range devl) @ buf_descs (bufs devl 8) (chan_range devl))
   \<and> list_all (\<lambda>j. case sg_tail devl j of None \<Rightarrow> False
         | Some t \<Rightarrow> t \<notin> set (buf_descs (bufs devl 7) (chan_range devl))) (chan_range devl)
   \<and> ddadr (descs devl (sg_dma (dmas (bufs devl 7) 2))) = desc_addr (sg_dma (dmas (bufs devl 7) 2)) 1
   \<and> (\<exists>s1 s2. pxa_dma_add_tail_buf c0 7 devl = Inr s1 \<and> pxa_dma_add_tail_buf c0 8 s1 = Inr s2
      \<and> ddadr (descs s2 (last_desc (bufs devl 8) 2)) = DDADR_STOP c0
      \<and> sg_tail s2 2 = Some (last_desc (bufs devl 8) 2)
      \<and> reaches c0 (descs s2) (Suc (nat (sglen (dmas (bufs devl 7) 2))))
            (sg_dma (dmas (bufs devl 7) 2)) (sg_dma (dmas (bufs devl 8) 2)))"
proof -
  have cr: "chan_range devl = [0, 1, 2]"
    by (simp add: chan_range_def devl_def dev0_def upt_rec)
  have bd: "buf_descs (bufs devl 7) [0, 1, 2]
      = [0x107000, 0x107010, 0x107100, 0x107110, 0x107200, 0x107210]"
    "buf_descs (bufs devl 8) [0, 1, 2]
      = [0x108000, 0x108010, 0x108100, 0x108110, 0x108200, 0x108210]"
    by (simp_all add: buf_descs_def chan_descs_def devl_def bufl_def desc_addr_def
        sizeof_pxa_dma_desc_def upt_rec)
  have h1: "2 \<in> set (chan_range devl)" by (simp add: cr)
  have w2: "list_all (\<lambda>j. prepared (bufs devl 7) j \<and> prepared (bufs devl 8) j) (chan_range devl)"
    unfolding cr by (simp add: prepared_def devl_def bufl_def)
  have h3: "distinct (buf_descs (bufs devl 7) (chan_range devl)
      @ buf_descs (bufs devl 8) (chan_range devl))"
    unfolding cr bd by simp
  have h4: "DDADR_STOP c0 \<notin>
      set (buf_descs (bufs devl 7) (chan_range devl) @ buf_descs (bufs devl 8) (chan_range devl))"
    unfolding cr bd by (simp add: c0_def)
  have w5: "list_all (\<lambda>j. case sg_tail devl j of None \<Rightarrow> False
         | Some t \<Rightarrow> t \<notin> set (buf_descs (bufs devl 7) (chan_range devl))) (chan_range devl)"
    unfolding cr bd by (simp add: devl_def)
  have w6: "ddadr (descs devl (sg_dma (dmas (bufs devl 7) 2)))
      = desc_addr (sg_dma (dmas (bufs devl 7) 2)) 1"
    by (simp add: devl_def bufl_def desc_addr_def sizeof_pxa_dma_desc_def)
  from w2 have h2: "\<forall>j \<in> set (chan_range devl). prepared (bufs devl 7) j \<and> prepared (bufs devl 8) j"
    by (simp only: list_all_iff)
  from w5 have h5: "\<forall>j \<in> set (chan_range devl). \<forall>t. sg_tail devl j = Some t \<longrightarrow>
        t \<notin> set (buf_descs (bufs devl 7) (chan_range devl))"
    by (auto simp only: list_all_iff split: option.splits)
  have h6: "\<forall>k. 0 \<le> k \<and> k < sglen (dmas (bufs devl 7) 2) \<longrightarrow>
        ddadr (descs devl (desc_addr (sg_dma (dmas (bufs devl 7) 2)) k))
          = desc_addr (sg_dma (dmas (bufs devl 7) 2)) (k + 1)"
  proof (intro allI impI)
    fix k :: int
    assume "0 \<le> k \<and> k < sglen (dmas (bufs devl 7) 2)"
    then have "k = 0" by (simp add: devl_def bufl_def)
    with w6 show "ddadr (descs devl (desc_addr (sg_dma (dmas (bufs devl 7) 2)) k))
          = desc_addr (sg_dma (dmas (bufs devl 7) 2)) (k + 1)"
      by (simp add: desc_addr_0)
  qed
  note ex = pxa_dma_add_tail_buf_links [OF h1 h2 h3 h4 h5 h6]
  show ?thesis
    by (intro conjI) (fact h1 w2 h3 h4 w5 w6 ex)+
qed

end
